theory Spec2Isabelle
  imports Complex_Main "HOL-Library.AList" "HOL-Library.Char_ord" "HOL-Library.List_Lexorder"
begin

section \<open>pygod BaseDetector: scoring post-processing\<close>

text \<open>
  Shallow embedding of \<^verbatim>\<open>src/pygod/models/base.py\<close>. Scores are idealised as real
  numbers. An attribute that is unset before \<^verbatim>\<open>fit\<close> is an option field holding
  \<open>None\<close>; an exception is the left summand of the result. The class is seen through
  two views: the record \<open>detector\<close> holds the contamination and the fitted attributes
  that scoring reads and writes; the generic object \<open>est\<close> of the section on parameter
  introspection holds the constructor parameters that \<^verbatim>\<open>get_params\<close> and
  \<^verbatim>\<open>set_params\<close> reflect on.
\<close>

datatype error =
    NotFittedError
  | AttributeError string
  | ValueError "string list"
  | IndexError

text \<open>
  The detector object. Fields \<open>decision_scores\<close>, \<open>threshold\<close>, \<open>labels\<close>, \<open>mu\<close>,
  \<open>sigma\<close> stand for the attributes \<^verbatim>\<open>decision_scores_\<close>, \<^verbatim>\<open>threshold_\<close>,
  \<^verbatim>\<open>labels_\<close>, \<^verbatim>\<open>_mu\<close>, \<^verbatim>\<open>_sigma\<close>.
\<close>

record detector =
  contamination :: real
  decision_scores :: "real list option"
  threshold :: "real option"
  labels :: "int list option"
  mu :: "real option"
  sigma :: "real option"

text \<open>
  \<^verbatim>\<open>__init__\<close>: the contamination must lie in (0, 0.5], otherwise a ValueError with
  the offending value; the fitted attributes do not exist yet.
\<close>

definition init_detector :: "real \<Rightarrow> error + detector" where
  "init_detector c =
     (if \<not> (0 < c \<and> c \<le> 0.5)
      then Inl (ValueError [''contamination must be in (0, 0.5]''])
      else Inr \<lparr>contamination = c, decision_scores = None, threshold = None,
                labels = None, mu = None, sigma = None\<rparr>)"

text \<open>
  Modelled from the spec: \<^verbatim>\<open>numpy.percentile\<close> is an external primitive; the spec
  gives it the standard semantics with linear interpolation between order statistics.
  The virtual index of the \<open>q\<close>-th percentile among \<open>n\<close> sorted values is
  \<open>q / 100 * (n - 1)\<close>; the result interpolates between the two neighbouring order
  statistics. There is no order statistic of an empty array, and \<open>q\<close> outside
  [0, 100] is rejected.
\<close>

definition percentile :: "real list \<Rightarrow> real \<Rightarrow> error + real" where
  "percentile xs q =
     (if q < 0 \<or> 100 < q then Inl (ValueError [''Percentiles must be in the range [0, 100]''])
      else if xs = [] then Inl IndexError
      else
        let s = sort xs;
            n = length xs;
            pos = q / 100 * real (n - 1);
            lo = nat \<lfloor>pos\<rfloor>;
            hi = min (lo + 1) (n - 1);
            frac = pos - real lo
        in Inr (s ! lo + frac * (s ! hi - s ! lo)))"

text \<open>\<^verbatim>\<open>numpy.mean\<close> and \<^verbatim>\<open>numpy.std\<close> (population standard deviation).\<close>

definition mean :: "real list \<Rightarrow> real" where
  "mean xs = sum_list xs / real (length xs)"

definition std :: "real list \<Rightarrow> real" where
  "std xs = sqrt (sum_list (map (\<lambda>x. (x - mean xs)\<^sup>2) xs) / real (length xs))"

text \<open>\<^verbatim>\<open>(scores > threshold).astype('int').ravel()\<close>\<close>

definition threshold_labels :: "real list \<Rightarrow> real \<Rightarrow> int list" where
  "threshold_labels scores t = map (\<lambda>s. if s > t then 1 else 0) scores"

text \<open>
  \<^verbatim>\<open>_process_decision_scores\<close>: reads \<^verbatim>\<open>decision_scores_\<close> (an AttributeError when
  it is unset), then assigns \<^verbatim>\<open>threshold_\<close>, \<^verbatim>\<open>labels_\<close>, \<^verbatim>\<open>_mu\<close>, \<^verbatim>\<open>_sigma\<close> in
  this order. The only statement that can raise is the first one, so a failure leaves
  the detector as it was.
\<close>

definition process_decision_scores :: "detector \<Rightarrow> error + detector" where
  "process_decision_scores d =
     (case decision_scores d of
        None \<Rightarrow> Inl (AttributeError ''decision_scores_'')
      | Some xs \<Rightarrow>
          (case percentile xs (100 * (1 - contamination d)) of
             Inl e \<Rightarrow> Inl e
           | Inr t \<Rightarrow>
               Inr (d\<lparr>threshold := Some t,
                      labels := Some (threshold_labels xs t),
                      mu := Some (mean xs),
                      sigma := Some (std xs)\<rparr>)))"

section \<open>Confidence estimation\<close>

text \<open>
  Modelled from the spec: \<^verbatim>\<open>scipy.stats.binom.cdf\<close> is an external primitive with its
  standard mathematical meaning: the probability of at most \<open>k\<close> successes among \<open>n\<close>
  trials of success probability \<open>p\<close>.
\<close>

definition binom_cdf :: "int \<Rightarrow> nat \<Rightarrow> real \<Rightarrow> real" where
  "binom_cdf k n p =
     (if k < 0 then 0
      else (\<Sum>i \<leftarrow> [0 ..< Suc (min (nat k) n)]. real (n choose i) * p ^ i * (1 - p) ^ (n - i)))"

text \<open>
  \<^verbatim>\<open>np.int\<close> is numpy's alias of Python's \<^verbatim>\<open>int\<close> (in the numpy versions that
  have it): the conversion of a float to an integer truncates towards zero.
\<close>

definition np_int :: "real \<Rightarrow> int" where
  "np_int x = (if 0 \<le> x then \<lfloor>x\<rfloor> else \<lceil>x\<rceil>)"

text \<open>Boolean-mask indexing \<^verbatim>\<open>arr[mask]\<close>: the elements at the positions where the mask holds.\<close>

fun mask_select :: "'a list \<Rightarrow> bool list \<Rightarrow> 'a list" where
  "mask_select (a # as) (m # ms) = (if m then a # mask_select as ms else mask_select as ms)"
| "mask_select _ _ = []"

text \<open>
  \<^verbatim>\<open>np.place(arr, mask, vals)\<close>: the positions of \<open>arr\<close> where the mask holds receive the
  values of \<open>vals\<close> in order, starting again from the first value when they run out.
  The mask must have the size of \<open>arr\<close>, and \<open>vals\<close> must not be empty if there is a
  position to fill.
\<close>

fun place_values :: "'a list \<Rightarrow> bool list \<Rightarrow> 'a list \<Rightarrow> 'a list \<Rightarrow> 'a list" where
  "place_values (a # as) (m # ms) rest vals =
     (if m then
        (case rest of
           v # vs \<Rightarrow> v # place_values as ms vs vals
         | [] \<Rightarrow>
             (case vals of
                v # vs \<Rightarrow> v # place_values as ms vs vals
              | [] \<Rightarrow> a # place_values as ms [] vals))
      else a # place_values as ms rest vals)"
| "place_values as _ _ _ = as"

definition np_place :: "'a list \<Rightarrow> bool list \<Rightarrow> 'a list \<Rightarrow> error + 'a list" where
  "np_place arr msk vals =
     (if length msk \<noteq> length arr then Inl (ValueError [''place: mask and data must be the same size''])
      else if vals = [] \<and> True \<in> set msk then Inl (ValueError [''Cannot insert from an empty array!''])
      else Inr (place_values arr msk vals vals))"

text \<open>
  \<^verbatim>\<open>np.vectorize(f)(xs)\<close> applies \<open>f\<close> to each element. Without \<^verbatim>\<open>otypes\<close> it finds
  the type of the result by calling \<open>f\<close> on the first element, and raises a ValueError
  on an input of size 0.
\<close>

definition np_vectorize :: "('a \<Rightarrow> 'b) \<Rightarrow> 'a list \<Rightarrow> error + 'b list" where
  "np_vectorize f xs =
     (if xs = [] then Inl (ValueError [''cannot call vectorize on size 0 inputs unless otypes is set''])
      else Inr (map f xs))"

text \<open>
  The product \<^verbatim>\<open>n * self.contamination\<close> is a product of double-precision floats, and
  \<^verbatim>\<open>np.int\<close> truncates its rounded value, so the rounding decides the integer whenever
  the exact product lies within half a unit in the last place of one. \<open>fl_double\<close> rounds
  a real number to the nearest double, ties to the even significand (IEEE 754 binary64:
  53 significant bits, least exponent -1022 with gradual underflow); overflow to
  infinity, beyond any product of a sample count and a contamination, is not modelled.
\<close>

definition round_half_even :: "real \<Rightarrow> int" where
  "round_half_even q =
     (let f = \<lfloor>q\<rfloor>; r = q - of_int f
      in if r < 1 / 2 then f
         else if 1 / 2 < r then f + 1
         else if even f then f else f + 1)"

definition double_exponent :: "real \<Rightarrow> int" where
  "double_exponent x = max \<lfloor>log 2 \<bar>x\<bar>\<rfloor> (- 1022)"

definition fl_double :: "real \<Rightarrow> real" where
  "fl_double x =
     (if x = 0 then 0
      else
        let u = 2 powr (of_int (double_exponent x) - 52)
        in sgn x * of_int (round_half_even (\<bar>x\<bar> / u)) * u)"

text \<open>
  \<^verbatim>\<open>predict_confidence\<close>. The parameter \<open>df\<close> is the concrete detector's
  \<^verbatim>\<open>decision_function\<close>, one score per node of the graph. Each of the three
  vectorised stages can raise; the first does so on a graph without nodes.
\<close>

definition predict_confidence :: "('g \<Rightarrow> real list) \<Rightarrow> detector \<Rightarrow> 'g \<Rightarrow> error + real list" where
  "predict_confidence df d G =
     (case (decision_scores d, threshold d, labels d) of
        (Some train, Some t, Some ls) \<Rightarrow>
          let n = length train;
              test_scores = df G
          in (case np_vectorize (\<lambda>x. length (filter (\<lambda>s. s \<le> x) train)) test_scores of
                Inl e \<Rightarrow> Inl e
              | Inr n_instances \<Rightarrow>
                  (case np_vectorize (\<lambda>k. (1 + real k) / (2 + real n)) n_instances of
                     Inl e \<Rightarrow> Inl e
                   | Inr posterior_prob \<Rightarrow>
                       (case np_vectorize
                               (\<lambda>p. 1 - binom_cdf
                                          (int n - np_int (fl_double (real n * contamination d))) n p)
                               posterior_prob of
                          Inl e \<Rightarrow> Inl e
                        | Inr confidence \<Rightarrow>
                            let prediction = threshold_labels test_scores t;
                                msk = map (\<lambda>l. l = 0) prediction
                            in np_place confidence msk
                                 (map (\<lambda>c. 1 - c) (mask_select confidence msk)))))
      | _ \<Rightarrow> Inl NotFittedError)"

section \<open>Prediction\<close>

datatype prediction = Labels "int list" | LabelsConf "int list" "real list"

definition predict :: "('g \<Rightarrow> real list) \<Rightarrow> detector \<Rightarrow> 'g \<Rightarrow> bool \<Rightarrow> error + prediction" where
  "predict df d G return_confidence =
     (case (decision_scores d, threshold d, labels d) of
        (Some train, Some t, Some ls) \<Rightarrow>
          let pred_score = df G;
              prediction = threshold_labels pred_score t
          in if return_confidence
             then (case predict_confidence df d G of
                     Inl e \<Rightarrow> Inl e
                   | Inr confidence \<Rightarrow> Inr (LabelsConf prediction confidence))
             else Inr (Labels prediction)
      | _ \<Rightarrow> Inl NotFittedError)"

section \<open>Probability calibration\<close>

text \<open>
  A numpy float that is the outcome of a division: a finite number, an infinity or
  not-a-number. numpy divides by zero without raising (it only warns): a non-zero
  numerator gives an infinity of its sign, zero by zero gives NaN. The divisor that
  occurs here, \<^verbatim>\<open>self._sigma * np.sqrt(2)\<close>, is never negative zero.
\<close>

datatype npfloat = Num real | PInf | NInf | NaN

definition np_div :: "real \<Rightarrow> real \<Rightarrow> npfloat" where
  "np_div x y =
     (if y \<noteq> 0 then Num (x / y)
      else if 0 < x then PInf
      else if x < 0 then NInf
      else NaN)"

text \<open>
  \<^verbatim>\<open>scipy.special.erf\<close> is an external primitive, taken as the parameter \<open>erf\<close> on
  finite arguments; its limits at the infinities are 1 and -1, and NaN propagates.
\<close>

fun np_erf :: "(real \<Rightarrow> real) \<Rightarrow> npfloat \<Rightarrow> npfloat" where
  "np_erf erf (Num x) = Num (erf x)"
| "np_erf erf PInf = Num 1"
| "np_erf erf NInf = Num (- 1)"
| "np_erf erf NaN = NaN"

text \<open>\<^verbatim>\<open>.clip(0, 1)\<close>, that is \<^verbatim>\<open>minimum(maximum(x, 0), 1)\<close>; NaN propagates.\<close>

fun np_clip01 :: "npfloat \<Rightarrow> npfloat" where
  "np_clip01 (Num x) = Num (min (max x 0) 1)"
| "np_clip01 PInf = Num 1"
| "np_clip01 NInf = Num 0"
| "np_clip01 NaN = NaN"

text \<open>\<^verbatim>\<open>1 - x\<close> on a numpy float.\<close>

fun np_one_minus :: "npfloat \<Rightarrow> npfloat" where
  "np_one_minus (Num x) = Num (1 - x)"
| "np_one_minus PInf = NInf"
| "np_one_minus NInf = PInf"
| "np_one_minus NaN = NaN"

text \<open>
  Modelled from the spec: \<^verbatim>\<open>sklearn.preprocessing.MinMaxScaler\<close> is an external
  primitive. Fitted on the training scores it keeps \<open>scale = 1 / (max - min)\<close> (a zero
  range is replaced by 1) and \<open>min_ = 0 - min * scale\<close>; it transforms a value \<open>x\<close> to
  \<open>x * scale + min_\<close>. It cannot be fitted on an empty array.
\<close>

record scaler =
  scale :: real
  min_shift :: real

definition minmax_fit :: "real list \<Rightarrow> error + scaler" where
  "minmax_fit train =
     (case train of
        [] \<Rightarrow> Inl (ValueError [''Found array with 0 sample(s)''])
      | x # xs \<Rightarrow>
          let data_min = fold min xs x;
              data_max = fold max xs x;
              data_range = data_max - data_min;
              sc = 1 / (if data_range = 0 then 1 else data_range)
          in Inr \<lparr>scale = sc, min_shift = 0 - data_min * sc\<rparr>)"

definition minmax_transform :: "scaler \<Rightarrow> real \<Rightarrow> real" where
  "minmax_transform s x = x * scale s + min_shift s"

text \<open>
  The result of \<^verbatim>\<open>predict_proba\<close>: the rows of the two-column matrix \<^verbatim>\<open>probs\<close>
  (column 0, column 1), alone or with the confidences.
\<close>

datatype probability = Probs "(npfloat \<times> npfloat) list"
  | ProbsConf "(npfloat \<times> npfloat) list" "real list"

text \<open>Both branches end the same way: column 0 is \<^verbatim>\<open>1 - probs[:, 1]\<close>, then the return.\<close>

definition finish_proba ::
    "('g \<Rightarrow> real list) \<Rightarrow> detector \<Rightarrow> 'g \<Rightarrow> bool \<Rightarrow> npfloat list \<Rightarrow> error + probability" where
  "finish_proba df d G return_confidence col1 =
     (let probs = map (\<lambda>p. (np_one_minus p, p)) col1
      in if return_confidence
         then (case predict_confidence df d G of
                 Inl e \<Rightarrow> Inl e
               | Inr confidence \<Rightarrow> Inr (ProbsConf probs confidence))
         else Inr (Probs probs))"

definition predict_proba ::
    "(real \<Rightarrow> real) \<Rightarrow> ('g \<Rightarrow> real list) \<Rightarrow> detector \<Rightarrow> 'g \<Rightarrow> string \<Rightarrow> bool
       \<Rightarrow> error + probability" where
  "predict_proba erf df d G method return_confidence =
     (case (decision_scores d, threshold d, labels d) of
        (Some train_scores, Some t, Some ls) \<Rightarrow>
          let test_scores = df G in
          if method = ''linear'' then
            (case minmax_fit train_scores of
               Inl e \<Rightarrow> Inl e
             | Inr s \<Rightarrow>
                 finish_proba df d G return_confidence
                   (map (\<lambda>x. np_clip01 (Num (minmax_transform s x))) test_scores))
          else if method = ''unify'' then
            (case mu d of
               None \<Rightarrow> Inl (AttributeError ''_mu'')
             | Some m \<Rightarrow>
                 (case sigma d of
                    None \<Rightarrow> Inl (AttributeError ''_sigma'')
                  | Some sg \<Rightarrow>
                      finish_proba df d G return_confidence
                        (map (\<lambda>x. np_clip01 (np_erf erf (np_div (x - m) (sg * sqrt 2))))
                           test_scores)))
          else Inl (ValueError [method, ''is not a valid probability conversion method''])
      | _ \<Rightarrow> Inl NotFittedError)"

text \<open>
  The confidence of one test score in the words of the specification: with \<open>n\<close> training
  scores of which \<open>k\<close> are at most \<open>x\<close>, the posterior probability is
  \<open>p = (1 + k) / (2 + n)\<close>, the number of required successes is
  \<open>m = n - floor (n * contamination)\<close>, and \<open>c = 1 - BinomCDF(m; n, p)\<close> is reported for
  a predicted outlier, \<open>1 - c\<close> for a predicted inlier.
\<close>

definition confidence_of :: "real list \<Rightarrow> real \<Rightarrow> real \<Rightarrow> real \<Rightarrow> real" where
  "confidence_of train c t x =
     (let n = length train;
          k = length (filter (\<lambda>s. s \<le> x) train);
          p = (1 + real k) / (2 + real n);
          m = int n - \<lfloor>real n * c\<rfloor>;
          cx = 1 - binom_cdf m n p
      in if x > t then cx else 1 - cx)"

text \<open>
  The confidence that the code computes for one test score: the three vectorised stages
  and the replacement by \<^verbatim>\<open>np.place\<close>, with the number of required successes taken
  from the rounded product.
\<close>

definition confidence_at :: "real list \<Rightarrow> real \<Rightarrow> real \<Rightarrow> real \<Rightarrow> real" where
  "confidence_at train c t x =
     (let n = length train;
          k = length (filter (\<lambda>s. s \<le> x) train);
          p = (1 + real k) / (2 + real n);
          m = int n - np_int (fl_double (real n * c));
          cx = 1 - binom_cdf m n p
      in if x > t then cx else 1 - cx)"

text \<open>
  The double nearest to one third, the value of the Python float \<^verbatim>\<open>1/3\<close>.
\<close>

definition double_third :: real where
  "double_third = 6004799503160661 / 18014398509481984"


section \<open>Parameter introspection\<close>

text \<open>
  Values of attributes: \<^verbatim>\<open>None\<close>, numbers, strings, and objects that expose
  \<^verbatim>\<open>get_params\<close> (nested estimators). An estimator is given by the name of its
  class, the names of the parameters declared by its constructor (those of the signature
  of \<^verbatim>\<open>__init__\<close> other than \<^verbatim>\<open>self\<close> and a \<^verbatim>\<open>**kwargs\<close> collector) and its
  attribute dictionary, in insertion order. In this section objects are modelled by value:
  two estimators with the same state are the same object, and a nested estimator belongs
  to one parameter. That is enough for what \<^verbatim>\<open>get_params\<close> returns and for the first
  loop of \<^verbatim>\<open>set_params\<close>; the properties that depend on the identity of objects are
  stated on the store of the next section. A constructor with a \<^verbatim>\<open>*args\<close> parameter, which
  \<^verbatim>\<open>_get_param_names\<close> rejects with a RuntimeError, and deprecated parameters, which
  \<^verbatim>\<open>get_params\<close> skips, are outside this model.
\<close>

datatype val = VNone | VNum real | VStr string | VEst est
and est = Est (cls: string) (init_names: "string list") (attrs: "(string \<times> val) list")

type_synonym params = "(string \<times> val) list"

text \<open>
  \<^verbatim>\<open>getattr(self, key, None)\<close> and \<^verbatim>\<open>setattr(self, key, value)\<close>. A Python
  dictionary is an association list in insertion order; assigning to a key that is
  present keeps its position (\<open>AList.update\<close>).
\<close>

definition getattr :: "est \<Rightarrow> string \<Rightarrow> val" where
  "getattr e key = (case map_of (attrs e) key of None \<Rightarrow> VNone | Some v \<Rightarrow> v)"

definition setattr :: "est \<Rightarrow> string \<Rightarrow> val \<Rightarrow> est" where
  "setattr e key value = Est (cls e) (init_names e) (AList.update key value (attrs e))"

lemma size_map_of: "map_of as k = Some v \<Longrightarrow> size v < Suc (size_list (size_prod (\<lambda>_. 0) size) as)"
  by (induction as) (auto split: if_splits)

text \<open>
  \<^verbatim>\<open>get_params\<close>. \<^verbatim>\<open>_get_param_names\<close> returns the declared names sorted. For each
  name the loop reads the attribute; with \<^verbatim>\<open>deep\<close>, the parameters of a nested
  estimator (its own \<^verbatim>\<open>get_params()\<close>, which is deep) are entered under
  \<^verbatim>\<open>key + '__' + k\<close>; then the value itself is entered under the name.
\<close>

function get_params :: "est \<Rightarrow> bool \<Rightarrow> (string \<times> val) list" where
  "get_params e deep =
     fold (\<lambda>key out.
             let value = getattr e key
             in AList.update key value
                  (case value of
                     VEst sub \<Rightarrow>
                       if deep
                       then fold (\<lambda>(k, v). AList.update (key @ ''__'' @ k) v) (get_params sub True) out
                       else out
                   | _ \<Rightarrow> out))
       (sort (init_names e)) []"
  by pat_completeness auto
termination
  apply (relation "measure (\<lambda>(e, d). size e)")
   apply simp
  apply (auto simp: getattr_def split: option.splits)
  subgoal for e x y sub
    apply (cases e)
    apply (auto dest: size_map_of)
    done
  done

declare get_params.simps [simp del]

text \<open>
  \<^verbatim>\<open>key.partition('__')\<close>: the text before the first occurrence of the delimiter, the
  delimiter if it occurs, and the text after it.
\<close>

fun partition_dunder :: "string \<Rightarrow> string \<times> string \<times> string" where
  "partition_dunder [] = ([], [], [])"
| "partition_dunder [c] = ([c], [], [])"
| "partition_dunder (c # d # cs) =
     (if c = CHR ''_'' \<and> d = CHR ''_'' then ([], ''__'', cs)
      else (case partition_dunder (d # cs) of (a, delim, b) \<Rightarrow> (c # a, delim, b)))"

text \<open>
  The errors of \<^verbatim>\<open>set_params\<close>: the ValueError "Invalid parameter (key) for estimator
  (self)", carrying the key and the estimator as it is when the error is raised, and the
  AttributeError of calling \<^verbatim>\<open>set_params\<close> on a value that has no such method.
\<close>

datatype param_error = InvalidParameter string est | NoSetParams val

text \<open>
  \<^verbatim>\<open>nested_params[key][sub_key] = value\<close> on a \<^verbatim>\<open>defaultdict(dict)\<close>.
\<close>

definition nested_add :: "string \<Rightarrow> string \<Rightarrow> val \<Rightarrow> (string \<times> params) list \<Rightarrow> (string \<times> params) list" where
  "nested_add key sub_key value nested =
     AList.update key
       (AList.update sub_key value (case map_of nested key of None \<Rightarrow> [] | Some d \<Rightarrow> d))
       nested"

text \<open>
  The first loop of \<^verbatim>\<open>set_params\<close>: each key is split; an unknown top-level name
  raises at once; a key with a delimiter is kept for the nested estimator; any other
  key is assigned immediately. The result is the error (if any), the estimator as the
  loop leaves it, and the nested parameters collected.
\<close>

fun assign_params ::
    "params \<Rightarrow> params \<Rightarrow> est \<Rightarrow> (string \<times> params) list
       \<Rightarrow> param_error option \<times> est \<times> (string \<times> params) list" where
  "assign_params valid_params [] e nested = (None, e, nested)"
| "assign_params valid_params ((k, value) # rest) e nested =
     (case partition_dunder k of
        (key, delim, sub_key) \<Rightarrow>
          if map_of valid_params key = None then (Some (InvalidParameter key e), e, nested)
          else if delim \<noteq> [] then assign_params valid_params rest e (nested_add key sub_key value nested)
          else assign_params valid_params rest (setattr e key value) nested)"

text \<open>
  The second loop: \<^verbatim>\<open>valid_params[key].set_params(**sub_params)\<close> for each collected
  key, with \<open>sp\<close> the recursive call. The call mutates the object that \<^verbatim>\<open>get_params\<close>
  found under the key; the estimator sees the change if its attribute still holds that
  object. An error of the nested call propagates after the nested object has changed.
  A collected key has been found in \<^verbatim>\<open>valid_params\<close> by the first loop, so the last
  case (a KeyError) does not arise.
\<close>

fun set_nested ::
    "(est \<Rightarrow> params \<Rightarrow> param_error option \<times> est) \<Rightarrow> params \<Rightarrow> (string \<times> params) list \<Rightarrow> est
       \<Rightarrow> param_error option \<times> est" where
  "set_nested sp valid_params [] e = (None, e)"
| "set_nested sp valid_params ((key, sub_params) # rest) e =
     (case map_of valid_params key of
        Some (VEst target) \<Rightarrow>
          (case sp target sub_params of
             (err, target') \<Rightarrow>
               let e' = (if getattr e key = VEst target then setattr e key (VEst target') else e)
               in (case err of
                     Some x \<Rightarrow> (Some x, e')
                   | None \<Rightarrow> set_nested sp valid_params rest e'))
      | Some v \<Rightarrow> (Some (NoSetParams v), e)
      | None \<Rightarrow> (Some (NoSetParams VNone), e))"

lemma set_nested_cong [fundef_cong]:
  assumes "valid = valid'" "nested = nested'" "e = e'"
    and "\<And>key target sub. map_of valid' key = Some (VEst target) \<Longrightarrow> sp target sub = sp' target sub"
  shows "set_nested sp valid nested e = set_nested sp' valid' nested' e'"
proof -
  have "set_nested sp valid' nested' x = set_nested sp' valid' nested' x" for x
  proof (induction nested' arbitrary: x)
    case Nil
    show ?case by simp
  next
    case (Cons a rest)
    obtain key sub where a: "a = (key, sub)" by (cases a)
    show ?case
    proof (cases "map_of valid' key")
      case None
      then show ?thesis by (simp add: a)
    next
      case (Some v)
      show ?thesis
      proof (cases v)
        case (VEst target)
        have "sp target sub = sp' target sub" using assms(4) Some VEst by simp
        then show ?thesis using Some VEst Cons.IH
          by (simp add: a Let_def split: prod.splits option.splits)
      qed (use Some in \<open>simp_all add: a\<close>)
    qed
  qed
  then show ?thesis by (simp add: assms(1-3))
qed

lemma set_update_subset: "set (AList.update k v al) \<subseteq> insert (k, v) (set al)"
  by (induction al) auto

lemma fold_update_values:
  assumes "(k, v) \<in> set (fold (\<lambda>(k, v). AList.update (f k) v) kvs out)"
  shows "(k, v) \<in> set out \<or> (\<exists>k'. (k', v) \<in> set kvs \<and> k = f k')"
  using assms
proof (induction kvs arbitrary: out)
  case Nil
  then show ?case by simp
next
  case (Cons a kvs)
  obtain k' v' where a: "a = (k', v')" by (cases a)
  from Cons.prems have "(k, v) \<in> set (fold (\<lambda>(k, v). AList.update (f k) v) kvs (AList.update (f k') v' out))"
    by (simp add: a)
  from Cons.IH [OF this] show ?case
    using set_update_subset [of "f k'" v' out] by (auto simp: a)
qed

lemma getattr_size: "size (getattr e key) < size e"
  by (cases e) (auto simp: getattr_def dest: size_map_of split: option.splits)

lemma get_params_size: "(k, v) \<in> set (get_params e deep) \<Longrightarrow> size v < size e"
proof (induction e deep arbitrary: k v rule: get_params.induct)
  case (1 e deep)
  let ?I = "\<lambda>out. \<forall>k v. (k, v) \<in> set out \<longrightarrow> size v < size e"
  let ?step = "\<lambda>key out.
             let value = getattr e key
             in AList.update key value
                  (case value of
                     VEst sub \<Rightarrow>
                       if deep
                       then fold (\<lambda>(k, v). AList.update (key @ ''__'' @ k) v) (get_params sub True) out
                       else out
                   | _ \<Rightarrow> out)"
  have step: "?I (?step key out)" if key: "key \<in> set (sort (init_names e))" and out: "?I out" for key out
  proof -
    have inner: "?I (case getattr e key of
                     VEst sub \<Rightarrow>
                       if deep
                       then fold (\<lambda>(k, v). AList.update (key @ ''__'' @ k) v) (get_params sub True) out
                       else out
                   | _ \<Rightarrow> out)"
    proof (cases "getattr e key")
      case (VEst sub)
      have sub: "size sub < size e" using getattr_size [of e key] VEst by simp
      show ?thesis
      proof (cases deep)
        case True
        have "size v < size e"
          if "(k, v) \<in> set (fold (\<lambda>(k, v). AList.update (key @ ''__'' @ k) v) (get_params sub True) out)"
          for k v
        proof -
          from fold_update_values [OF that]
          consider "(k, v) \<in> set out" | k' where "(k', v) \<in> set (get_params sub True)"
            by blast
          then show ?thesis
          proof cases
            case 1
            then show ?thesis using out by blast
          next
            case 2
            from "1.IH" [OF key refl VEst True this] have "size v < size sub" .
            then show ?thesis using sub by simp
          qed
        qed
        then show ?thesis using VEst True by simp
      next
        case False
        then show ?thesis using VEst out by simp
      qed
    qed (use out in simp_all)
    show ?thesis
    proof (clarify)
      fix k v assume "(k, v) \<in> set (?step key out)"
      then have "(k, v) \<in> insert (key, getattr e key) (set (case getattr e key of
                     VEst sub \<Rightarrow>
                       if deep
                       then fold (\<lambda>(k, v). AList.update (key @ ''__'' @ k) v) (get_params sub True) out
                       else out
                   | _ \<Rightarrow> out))"
        using set_update_subset [of key "getattr e key"] unfolding Let_def by blast
      then show "size v < size e"
        using inner getattr_size [of e key] by blast
    qed
  qed
  have "?I (fold ?step (sort (init_names e)) [])"
  proof (rule fold_invariant [where Q = "\<lambda>key. key \<in> set (sort (init_names e))"])
    show "?I []" by simp
  qed (use step in blast)+
  moreover have "get_params e deep = fold ?step (sort (init_names e)) []"
    by (rule get_params.simps)
  ultimately show ?case using "1.prems" by (simp only:)
qed

text \<open>
  \<^verbatim>\<open>set_params\<close>. The result is the error raised, or \<open>None\<close> when the call returns
  \<^verbatim>\<open>self\<close>, together with the estimator after the call.
\<close>

function set_params :: "est \<Rightarrow> params \<Rightarrow> param_error option \<times> est" where
  "set_params e params =
     (if params = [] then (None, e)
      else
        let valid_params = get_params e True
        in (case assign_params valid_params params e [] of
              (Some err, e', nested_params) \<Rightarrow> (Some err, e')
            | (None, e', nested_params) \<Rightarrow>
                set_nested (\<lambda>target sub_params. set_params target sub_params)
                  valid_params nested_params e'))"
  by pat_completeness auto
termination
proof (relation "measure (\<lambda>(e, ps). size e)")
  show "wf (measure (\<lambda>(e, ps). size e))" by simp
next
  fix e :: est and params :: params and valid x y xa ya nested key target sub
  assume "valid = get_params e True" and "map_of valid key = Some (VEst target)"
  then have "(key, VEst target) \<in> set (get_params e True)" by (auto dest: map_of_SomeD)
  from get_params_size [OF this]
  show "((target, sub), e, params) \<in> measure (\<lambda>(e, ps). size e)" by simp
qed

declare set_params.simps [simp del]

text \<open>
  The top-level name of a key, whether a key has the delimiter, and the names that the
  nesting convention can address: a name is plain when the first delimiter of
  \<^verbatim>\<open>name + '__'\<close> is the appended one, that is, when the name neither contains
  \<^verbatim>\<open>'__'\<close> nor ends in \<^verbatim>\<open>'_'\<close>.
\<close>

definition top_name :: "string \<Rightarrow> string" where
  "top_name s = fst (partition_dunder s)"

definition has_dunder :: "string \<Rightarrow> bool" where
  "has_dunder s = (fst (snd (partition_dunder s)) \<noteq> [])"

definition plain_name :: "string \<Rightarrow> bool" where
  "plain_name k = (partition_dunder (k @ ''__'') = (k, ''__'', []))"

text \<open>
  The body of the loop of \<^verbatim>\<open>get_params\<close>, and what a lookup in its result finds when
  the declared names are plain.
\<close>

definition gp_step :: "est \<Rightarrow> bool \<Rightarrow> string \<Rightarrow> params \<Rightarrow> params" where
  "gp_step e deep key out =
     (let value = getattr e key
      in AList.update key value
           (case value of
              VEst sub \<Rightarrow>
                if deep
                then fold (\<lambda>(k, v). AList.update (key @ ''__'' @ k) v) (get_params sub True) out
                else out
            | _ \<Rightarrow> out))"

definition params_lookup :: "est \<Rightarrow> bool \<Rightarrow> string set \<Rightarrow> string \<Rightarrow> val option" where
  "params_lookup e deep S K =
     (case partition_dunder K of
        (key, delim, sub) \<Rightarrow>
          if key \<in> S then
            (if delim = [] then Some (getattr e key)
             else (case getattr e key of
                     VEst s \<Rightarrow> if deep then map_of (get_params s True) sub else None
                   | _ \<Rightarrow> None))
          else None)"

text \<open>
  What the first loop of \<^verbatim>\<open>set_params\<close> does with one valid key: a key without
  delimiter is assigned, a nested key is only recorded.
\<close>

definition assign_plain :: "string \<times> val \<Rightarrow> est \<Rightarrow> est" where
  "assign_plain kv e = (if has_dunder (fst kv) then e else setattr e (fst kv) (snd kv))"

text \<open>
  The parameters of a \<^verbatim>\<open>BaseDetector\<close> instance: its constructor declares
  \<^verbatim>\<open>contamination\<close> and stores it.
\<close>

definition base_detector :: "real \<Rightarrow> est" where
  "base_detector c = Est ''BaseDetector'' [''contamination''] [(''contamination'', VNum c)]"


section \<open>Parameter introspection on a store of objects\<close>

text \<open>
  Python objects are references: the same nested estimator can be the value of several
  parameters, and \<^verbatim>\<open>set_params\<close> mutates the object that \<^verbatim>\<open>get_params\<close> found, in
  place. Where a property depends on that, the estimators live in a store, a partial map
  from addresses to objects. A value is \<^verbatim>\<open>None\<close>, a number, a string, or the address
  of an estimator, that is, of an object with the \<^verbatim>\<open>get_params\<close> and \<^verbatim>\<open>set_params\<close>
  of this class. An object has the name of its class, the parameter names declared by
  its constructor, and its attribute dictionary.
\<close>

type_synonym addr = nat

datatype sval = SNone | SNum real | SStr string | SRef addr

datatype sobj = SObj (obj_cls: string) (obj_names: "string list") (obj_attrs: "(string \<times> sval) list")

type_synonym store = "addr \<Rightarrow> sobj option"

type_synonym sparams = "(string \<times> sval) list"

text \<open>
  \<^verbatim>\<open>getattr(self, key, None)\<close> and \<^verbatim>\<open>setattr(self, key, value)\<close> on an object, and
  the assignment through an address.
\<close>

definition obj_getattr :: "sobj \<Rightarrow> string \<Rightarrow> sval" where
  "obj_getattr ob key = (case map_of (obj_attrs ob) key of None \<Rightarrow> SNone | Some v \<Rightarrow> v)"

definition obj_setattr :: "sobj \<Rightarrow> string \<Rightarrow> sval \<Rightarrow> sobj" where
  "obj_setattr ob key value = SObj (obj_cls ob) (obj_names ob) (AList.update key value (obj_attrs ob))"

definition store_setattr :: "store \<Rightarrow> addr \<Rightarrow> string \<Rightarrow> sval \<Rightarrow> store" where
  "store_setattr h a key value =
     (case h a of None \<Rightarrow> h | Some ob \<Rightarrow> h(a \<mapsto> obj_setattr ob key value))"

text \<open>
  \<^verbatim>\<open>get_params\<close> on the store. The first argument bounds the depth of the nested
  calls; the result \<open>None\<close> stands for the call that does not return (the
  \<^verbatim>\<open>RecursionError\<close> of an estimator that is nested in itself). For each declared name
  in sorted order the loop reads the attribute and, when \<open>deep\<close> holds and the value is
  an estimator, enters \<^verbatim>\<open>key + '__' + k\<close> for every entry \<open>k\<close> of the nested
  \<^verbatim>\<open>get_params()\<close>, then the value itself under \<open>key\<close>.
\<close>

fun store_get_params :: "nat \<Rightarrow> store \<Rightarrow> addr \<Rightarrow> bool \<Rightarrow> sparams option" where
  "store_get_params 0 h a deep = None"
| "store_get_params (Suc n) h a deep =
     (case h a of
        None \<Rightarrow> None
      | Some ob \<Rightarrow>
          fold (\<lambda>key acc.
                  case acc of
                    None \<Rightarrow> None
                  | Some out \<Rightarrow>
                      let value = obj_getattr ob key
                      in (case value of
                            SRef b \<Rightarrow>
                              if deep then
                                (case store_get_params n h b True of
                                   None \<Rightarrow> None
                                 | Some deep_items \<Rightarrow>
                                     Some (AList.update key value
                                             (fold (\<lambda>(k, v). AList.update (key @ ''__'' @ k) v)
                                                deep_items out)))
                              else Some (AList.update key value out)
                          | _ \<Rightarrow> Some (AList.update key value out)))
            (sort (obj_names ob)) (Some []))"

text \<open>
  \<^verbatim>\<open>set_params\<close> on the store: the errors it can raise,
  \<^verbatim>\<open>nested_params[key][sub_key] = value\<close> on the \<^verbatim>\<open>defaultdict\<close>, the first loop
  (split each key at its first delimiter, reject a top-level name that is not a key of
  \<^verbatim>\<open>valid_params\<close>, collect the keys with a delimiter, assign the others with
  \<^verbatim>\<open>setattr\<close>), the second loop (\<^verbatim>\<open>valid_params[key].set_params(**sub_params)\<close> on
  the object that \<^verbatim>\<open>get_params\<close> found under the key, which is mutated in place), and
  the method itself. The result is the error raised, or \<open>None\<close> when the call returns
  \<^verbatim>\<open>self\<close>, together with the store after the call.
\<close>

datatype store_error = InvalidParam string addr | NoSetParamsAttr sval | RecursionLimit

definition store_nested_add ::
    "string \<Rightarrow> string \<Rightarrow> sval \<Rightarrow> (string \<times> sparams) list \<Rightarrow> (string \<times> sparams) list" where
  "store_nested_add key sub_key value nested =
     AList.update key
       (AList.update sub_key value (case map_of nested key of None \<Rightarrow> [] | Some d \<Rightarrow> d))
       nested"

fun store_assign_params ::
    "sparams \<Rightarrow> sparams \<Rightarrow> addr \<Rightarrow> store \<Rightarrow> (string \<times> sparams) list
       \<Rightarrow> store_error option \<times> store \<times> (string \<times> sparams) list" where
  "store_assign_params valid_params [] a h nested = (None, h, nested)"
| "store_assign_params valid_params ((k, value) # rest) a h nested =
     (case partition_dunder k of
        (key, delim, sub_key) \<Rightarrow>
          if map_of valid_params key = None then (Some (InvalidParam key a), h, nested)
          else if delim \<noteq> []
          then store_assign_params valid_params rest a h (store_nested_add key sub_key value nested)
          else store_assign_params valid_params rest a (store_setattr h a key value) nested)"

fun store_set_nested ::
    "(addr \<Rightarrow> sparams \<Rightarrow> store \<Rightarrow> store_error option \<times> store) \<Rightarrow> sparams
       \<Rightarrow> (string \<times> sparams) list \<Rightarrow> store \<Rightarrow> store_error option \<times> store" where
  "store_set_nested sp valid_params [] h = (None, h)"
| "store_set_nested sp valid_params ((key, sub_params) # rest) h =
     (case map_of valid_params key of
        Some (SRef b) \<Rightarrow>
          (case sp b sub_params h of
             (Some x, h') \<Rightarrow> (Some x, h')
           | (None, h') \<Rightarrow> store_set_nested sp valid_params rest h')
      | Some v \<Rightarrow> (Some (NoSetParamsAttr v), h)
      | None \<Rightarrow> (Some (NoSetParamsAttr SNone), h))"

fun store_set_params :: "nat \<Rightarrow> store \<Rightarrow> addr \<Rightarrow> sparams \<Rightarrow> store_error option \<times> store" where
  "store_set_params 0 h a ps = (Some RecursionLimit, h)"
| "store_set_params (Suc n) h a ps =
     (if ps = [] then (None, h)
      else
        (case store_get_params (Suc n) h a True of
           None \<Rightarrow> (Some RecursionLimit, h)
         | Some valid_params \<Rightarrow>
             (case store_assign_params valid_params ps a h [] of
                (Some err, h', nested_params) \<Rightarrow> (Some err, h')
              | (None, h', nested_params) \<Rightarrow>
                  store_set_nested (\<lambda>b sub_params h. store_set_params n h b sub_params)
                    valid_params nested_params h')))"

text \<open>
  The body of the loop of \<^verbatim>\<open>get_params\<close> on the store, as a function of its own.
\<close>

definition sgp_step :: "nat \<Rightarrow> store \<Rightarrow> sobj \<Rightarrow> bool \<Rightarrow> string \<Rightarrow> sparams option \<Rightarrow> sparams option" where
  "sgp_step n h ob deep key acc =
     (case acc of
        None \<Rightarrow> None
      | Some out \<Rightarrow>
          let value = obj_getattr ob key
          in (case value of
                SRef b \<Rightarrow>
                  if deep then
                    (case store_get_params n h b True of
                       None \<Rightarrow> None
                     | Some deep_items \<Rightarrow>
                         Some (AList.update key value
                                 (fold (\<lambda>(k, v). AList.update (key @ ''__'' @ k) v)
                                    deep_items out)))
                  else Some (AList.update key value out)
              | _ \<Rightarrow> Some (AList.update key value out)))"

text \<open>
  Two stores read the same when they hold objects at the same addresses, with the same
  declared names, and \<^verbatim>\<open>getattr(obj, key, None)\<close> gives the same value for every
  object and every key. (An assignment of \<^verbatim>\<open>None\<close> to a parameter that was not stored
  changes the attribute dictionary, but no read.)
\<close>

definition same_reads :: "store \<Rightarrow> store \<Rightarrow> bool" where
  "same_reads h h' =
     (\<forall>a. case h a of
            None \<Rightarrow> h' a = None
          | Some ob \<Rightarrow>
              (\<exists>ob'. h' a = Some ob' \<and> obj_names ob' = obj_names ob
                     \<and> (\<forall>k. obj_getattr ob' k = obj_getattr ob k)))"

text \<open>
  The condition under which \<^verbatim>\<open>set_params\<close> addresses the nested parameters that
  \<^verbatim>\<open>get_params\<close> flattened. A key \<open>k\<close> with the value \<open>value\<close> splits to a child when
  the part before its first delimiter is a declared parameter that holds an estimator,
  and the part after it is a key of that estimator's \<^verbatim>\<open>get_params()\<close>, with the value
  \<open>value\<close>. An estimator splits back when every key of its \<^verbatim>\<open>get_params()\<close> that has
  a delimiter splits to a child, and the estimators held by its declared parameters
  split back in turn.
\<close>

definition splits_to_child :: "nat \<Rightarrow> store \<Rightarrow> sobj \<Rightarrow> string \<Rightarrow> sval \<Rightarrow> bool" where
  "splits_to_child n h ob k value =
     (case partition_dunder k of
        (key, delim, sub_key) \<Rightarrow>
          key \<in> set (obj_names ob)
          \<and> (case obj_getattr ob key of
               SRef b \<Rightarrow>
                 (case store_get_params n h b True of
                    Some deep_items \<Rightarrow> map_of deep_items sub_key = Some value
                  | None \<Rightarrow> False)
             | _ \<Rightarrow> False))"

fun splits_back :: "nat \<Rightarrow> store \<Rightarrow> addr \<Rightarrow> bool" where
  "splits_back 0 h a = True"
| "splits_back (Suc n) h a =
     (case h a of
        None \<Rightarrow> True
      | Some ob \<Rightarrow>
          (case store_get_params (Suc n) h a True of
             None \<Rightarrow> True
           | Some valid_params \<Rightarrow>
               (\<forall>(k, value) \<in> set valid_params. has_dunder k \<longrightarrow> splits_to_child n h ob k value)
               \<and> (\<forall>key \<in> set (obj_names ob).
                      case obj_getattr ob key of SRef b \<Rightarrow> splits_back n h b | _ \<Rightarrow> True)))"

text \<open>
  What the first loop of \<^verbatim>\<open>set_params\<close> has collected agrees with the nested
  estimators: each collected key is a declared parameter holding an estimator, and its
  collected entries are entries of that estimator's \<^verbatim>\<open>get_params()\<close>.
\<close>

definition nested_agree :: "nat \<Rightarrow> store \<Rightarrow> sobj \<Rightarrow> (string \<times> sparams) list \<Rightarrow> bool" where
  "nested_agree n h ob nested_params =
     (\<forall>(key, sub_params) \<in> set nested_params.
        key \<in> set (obj_names ob)
        \<and> (\<exists>b deep_items. obj_getattr ob key = SRef b
              \<and> store_get_params n h b True = Some deep_items
              \<and> (\<forall>(k, v) \<in> set sub_params. map_of deep_items k = Some v)))"

text \<open>
  A condition on the names alone: at every level of nesting, no declared name contains
  the delimiter, and the name of a parameter that holds an estimator is plain (it does
  not end in \<^verbatim>\<open>'_'\<close> either).
\<close>

fun plain_names :: "nat \<Rightarrow> store \<Rightarrow> addr \<Rightarrow> bool" where
  "plain_names 0 h a = True"
| "plain_names (Suc n) h a =
     (case h a of
        None \<Rightarrow> True
      | Some ob \<Rightarrow>
          (\<forall>key \<in> set (obj_names ob).
             \<not> has_dunder key
             \<and> (case obj_getattr ob key of
                  SRef b \<Rightarrow> plain_name key \<and> plain_names n h b
                | _ \<Rightarrow> True)))"

text \<open>
  Two stores. In the first, a wrapper holds a \<^verbatim>\<open>BaseDetector\<close> under \<^verbatim>\<open>base\<close>, a
  number under \<^verbatim>\<open>alpha_\<close>, and does not store its declared parameter \<^verbatim>\<open>beta\<close>. In
  the second, an estimator holds the same estimator \<open>A\<close> (with the parameter
  \<^verbatim>\<open>_x = 1\<close>) under \<^verbatim>\<open>Z\<close> and under \<^verbatim>\<open>a\<close>, and an estimator \<open>B\<close> (with the
  parameter \<^verbatim>\<open>x = 2\<close>) under \<^verbatim>\<open>a_\<close>.
\<close>

definition wrapped_store :: store where
  "wrapped_store =
     [0 \<mapsto> SObj ''Wrapper'' [''base'', ''alpha_'', ''beta'']
                [(''base'', SRef 1), (''alpha_'', SNum 1)],
      1 \<mapsto> SObj ''BaseDetector'' [''contamination''] [(''contamination'', SNum (1/10))]]"

definition shared_store :: store where
  "shared_store =
     [0 \<mapsto> SObj ''W'' [''a_'', ''a'', ''Z'']
                [(''Z'', SRef 1), (''a'', SRef 1), (''a_'', SRef 2)],
      1 \<mapsto> SObj ''A'' [''_x''] [(''_x'', SNum 1)],
      2 \<mapsto> SObj ''B'' [''x''] [(''x'', SNum 2)]]"


section \<open>Properties of the scoring post-processor\<close>

lemma binom_cdf_nonneg: "0 \<le> p \<Longrightarrow> p \<le> 1 \<Longrightarrow> 0 \<le> binom_cdf k n p"
proof -
  assume p: "0 \<le> p" "p \<le> 1"
  have "0 \<le> sum_list (map (\<lambda>i. real (n choose i) * p ^ i * (1 - p) ^ (n - i)) is)" for "is"
    by (rule sum_list_nonneg) (use p in auto)
  then show ?thesis by (simp add: binom_cdf_def del: upt_Suc)
qed

lemma binom_cdf_le_one:
  assumes "0 \<le> p" "p \<le> 1"
  shows "binom_cdf k n p \<le> 1"
proof (cases "k < 0")
  case True
  then show ?thesis by (simp add: binom_cdf_def)
next
  case False
  let ?f = "\<lambda>i. real (n choose i) * p ^ i * (1 - p) ^ (n - i)"
  have nn: "\<And>i. 0 \<le> ?f i" using assms by simp
  have "binom_cdf k n p = sum ?f {0 ..< Suc (min (nat k) n)}"
    using False by (simp add: binom_cdf_def interv_sum_list_conv_sum_set_nat)
  also have "\<dots> \<le> sum ?f {..n}"
    by (rule sum_mono2) (use nn in auto)
  also have "\<dots> = (p + (1 - p)) ^ n"
    unfolding binomial_ring by simp
  also have "\<dots> = 1" by simp
  finally show ?thesis .
qed

lemma percentile_between:
  assumes "xs \<noteq> []" "0 \<le> q" "q \<le> 100"
  defines "pos \<equiv> q / 100 * real (length xs - 1)"
  shows "\<exists>t. percentile xs q = Inr t
           \<and> t = sort xs ! nat \<lfloor>pos\<rfloor>
                 + (pos - real (nat \<lfloor>pos\<rfloor>))
                   * (sort xs ! min (nat \<lfloor>pos\<rfloor> + 1) (length xs - 1) - sort xs ! nat \<lfloor>pos\<rfloor>)
           \<and> sort xs ! nat \<lfloor>pos\<rfloor> \<le> t
           \<and> t \<le> sort xs ! min (nat \<lfloor>pos\<rfloor> + 1) (length xs - 1)"
proof -
  let ?n = "length xs"
  let ?lo = "nat \<lfloor>pos\<rfloor>"
  let ?hi = "min (?lo + 1) (?n - 1)"
  let ?s = "sort xs"
  let ?frac = "pos - real ?lo"
  have pos0: "0 \<le> pos" using assms by (simp add: pos_def)
  have posn: "pos \<le> real (?n - 1)"
  proof -
    have "q / 100 \<le> 1" using assms by simp
    then have "q / 100 * real (?n - 1) \<le> 1 * real (?n - 1)"
      by (rule mult_right_mono) simp
    then show ?thesis by (simp add: pos_def)
  qed
  have lo_le: "real ?lo \<le> pos" using pos0 by simp
  have lo_n: "?lo \<le> ?n - 1" using posn pos0 by (simp add: le_nat_floor nat_le_iff floor_le_iff)
  have frac0: "0 \<le> ?frac" using lo_le by simp
  have frac1: "?frac \<le> 1" using pos0 by linarith
  have hi_n: "?hi < ?n" using assms(1) by (cases xs) auto
  have lo_hi: "?lo \<le> ?hi" using lo_n by simp
  have le: "?s ! ?lo \<le> ?s ! ?hi"
    using sorted_nth_mono [of ?s ?lo ?hi] lo_hi hi_n by simp
  let ?t = "?s ! ?lo + ?frac * (?s ! ?hi - ?s ! ?lo)"
  have p: "percentile xs q = Inr ?t"
    using assms by (simp add: percentile_def Let_def pos_def)
  have t1: "?s ! ?lo \<le> ?t" using le frac0 by simp
  have "?frac * (?s ! ?hi - ?s ! ?lo) \<le> 1 * (?s ! ?hi - ?s ! ?lo)"
    by (rule mult_right_mono) (use frac1 le in auto)
  then have t2: "?t \<le> ?s ! ?hi" by simp
  show ?thesis using p t1 t2 by blast
qed

text \<open>
  C1. When \<^verbatim>\<open>_process_decision_scores\<close> runs on a detector with non-empty
  \<^verbatim>\<open>decision_scores_\<close> (and a contamination for which the percentile rank
  \<open>100 * (1 - contamination)\<close> is a percentage), it succeeds and writes all four derived
  fields in one step: \<^verbatim>\<open>threshold_\<close> is that percentile of the scores, the linear
  interpolation between the two neighbouring order statistics; \<^verbatim>\<open>labels_[i]\<close> is 1
  exactly when \<^verbatim>\<open>decision_scores_[i] > threshold_\<close>; the mean and the standard
  deviation of the scores are stored with them.
\<close>

theorem process_decision_scores_derives:
  assumes "decision_scores d = Some xs" and "xs \<noteq> []"
    and "0 \<le> contamination d" and "contamination d \<le> 1"
  defines "q \<equiv> 100 * (1 - contamination d)"
  defines "pos \<equiv> q / 100 * real (length xs - 1)"
  shows "\<exists>t. percentile xs q = Inr t
           \<and> t = sort xs ! nat \<lfloor>pos\<rfloor>
                 + (pos - real (nat \<lfloor>pos\<rfloor>))
                   * (sort xs ! min (nat \<lfloor>pos\<rfloor> + 1) (length xs - 1) - sort xs ! nat \<lfloor>pos\<rfloor>)
           \<and> process_decision_scores d =
               Inr (d\<lparr>threshold := Some t,
                      labels := Some (map (\<lambda>s. if t < s then 1 else 0) xs),
                      mu := Some (sum_list xs / real (length xs)),
                      sigma := Some (sqrt (sum_list (map (\<lambda>x. (x - sum_list xs / real (length xs))\<^sup>2) xs)
                                           / real (length xs)))\<rparr>)
           \<and> (\<forall>i<length xs. (map (\<lambda>s. if t < s then (1::int) else 0) xs ! i = 1) = (t < xs ! i))"
proof -
  have q: "0 \<le> q" "q \<le> 100" using assms by (simp_all add: q_def)
  from percentile_between [OF assms(2) q]
  obtain t where t: "percentile xs q = Inr t"
    and f: "t = sort xs ! nat \<lfloor>pos\<rfloor>
                 + (pos - real (nat \<lfloor>pos\<rfloor>))
                   * (sort xs ! min (nat \<lfloor>pos\<rfloor> + 1) (length xs - 1) - sort xs ! nat \<lfloor>pos\<rfloor>)"
    unfolding pos_def by blast
  have p: "process_decision_scores d =
               Inr (d\<lparr>threshold := Some t,
                      labels := Some (map (\<lambda>s. if t < s then 1 else 0) xs),
                      mu := Some (sum_list xs / real (length xs)),
                      sigma := Some (sqrt (sum_list (map (\<lambda>x. (x - sum_list xs / real (length xs))\<^sup>2) xs)
                                           / real (length xs)))\<rparr>)"
    using assms(1) t
    by (simp add: process_decision_scores_def q_def threshold_labels_def mean_def std_def)
  have l: "\<forall>i<length xs. (map (\<lambda>s. if t < s then (1::int) else 0) xs ! i = 1) = (t < xs ! i)"
    by simp
  show ?thesis using t f p l by blast
qed

theorem process_decision_scores_derives_witness:
  "process_decision_scores
     \<lparr>contamination = 1/2, decision_scores = Some [1, 3], threshold = None,
      labels = None, mu = None, sigma = None\<rparr>
   = Inr \<lparr>contamination = 1/2, decision_scores = Some [1, 3], threshold = Some 2,
          labels = Some [0, 1], mu = Some 2, sigma = Some 1\<rparr>"
  using process_decision_scores_derives
    [of "\<lparr>contamination = 1/2, decision_scores = Some [1, 3], threshold = None,
      labels = None, mu = None, sigma = None\<rparr>" "[1, 3]"]
  by (simp add: percentile_def Let_def)

section \<open>Properties of prediction and confidence\<close>

text \<open>
  \<^verbatim>\<open>predict_confidence\<close> passes \<^verbatim>\<open>np.place\<close> one value for each position to fill, so
  on a graph with at least one node it returns, and its result is computed score by
  score. On a graph without nodes the first vectorised stage raises.
\<close>

lemma mask_select_nonempty:
  "length msk = length arr \<Longrightarrow> True \<in> set msk \<Longrightarrow> mask_select arr msk \<noteq> []"
  by (induction arr msk rule: list_induct2') auto

lemma place_values_mask_select:
  "length msk = length arr \<Longrightarrow>
     place_values arr msk (map f (mask_select arr msk)) vals =
       map (\<lambda>(a, m). if m then f a else a) (zip arr msk)"
  by (induction arr msk rule: list_induct2') auto

lemma np_place_mask_select:
  assumes "length msk = length arr"
  shows "np_place arr msk (map f (mask_select arr msk)) =
           Inr (map (\<lambda>(a, m). if m then f a else a) (zip arr msk))"
proof -
  have "\<not> (map f (mask_select arr msk) = [] \<and> True \<in> set msk)"
    using mask_select_nonempty [OF assms] by auto
  then show ?thesis
    using assms place_values_mask_select [OF assms, of f "map f (mask_select arr msk)"]
    by (simp add: np_place_def)
qed

lemma predict_confidence_empty:
  assumes "decision_scores d = Some train" and "threshold d = Some t" and "labels d = Some ls"
    and "df G = []"
  shows "predict_confidence df d G =
           Inl (ValueError [''cannot call vectorize on size 0 inputs unless otypes is set''])"
  using assms by (simp add: predict_confidence_def np_vectorize_def)

lemma predict_confidence_fitted:
  assumes "decision_scores d = Some train" and "threshold d = Some t" and "labels d = Some ls"
    and "df G \<noteq> []"
  shows "predict_confidence df d G = Inr (map (confidence_at train (contamination d) t) (df G))"
proof -
  define m where "m = int (length train) - np_int (fl_double (real (length train) * contamination d))"
  let ?conf = "map (\<lambda>p. 1 - binom_cdf m (length train) p)
                (map (\<lambda>k. (1 + real k) / (2 + real (length train)))
                   (map (\<lambda>x. length (filter (\<lambda>s. s \<le> x) train)) (df G)))"
  let ?msk = "map (\<lambda>l. l = 0) (threshold_labels (df G) t)"
  have len: "length ?msk = length ?conf" by (simp add: threshold_labels_def)
  have "predict_confidence df d G = np_place ?conf ?msk (map (\<lambda>c. 1 - c) (mask_select ?conf ?msk))"
    using assms by (simp add: predict_confidence_def np_vectorize_def Let_def m_def del: map_map)
  also have "\<dots> = Inr (map (\<lambda>(a, m). if m then 1 - a else a) (zip ?conf ?msk))"
    by (rule np_place_mask_select [OF len])
  also have "map (\<lambda>(a, m). if m then 1 - a else a) (zip ?conf ?msk) =
      map (confidence_at train (contamination d) t) (df G)"
    by (simp add: threshold_labels_def zip_map_map Let_def map_eq_conv zip_same_conv_map
        confidence_at_def m_def)
  finally show ?thesis .
qed

lemma confidence_at_bounds:
  "0 \<le> confidence_at train c t x \<and> confidence_at train c t x \<le> 1"
proof -
  let ?n = "length train"
  let ?k = "length (filter (\<lambda>s. s \<le> x) train)"
  let ?p = "(1 + real ?k) / (2 + real ?n)"
  let ?m = "int ?n - np_int (fl_double (real ?n * c))"
  have kn: "?k \<le> ?n" by simp
  have p0: "0 \<le> ?p" by simp
  have kr: "real ?k \<le> real ?n" using kn by (simp only: of_nat_le_iff)
  have gen: "(1 + a) / (2 + b) \<le> 1" if "a \<le> b" "0 \<le> b" for a b :: real
    using that by (simp add: divide_le_eq)
  have p1: "?p \<le> 1" by (rule gen [OF kr]) simp
  have "0 \<le> binom_cdf ?m ?n ?p" and "binom_cdf ?m ?n ?p \<le> 1"
    using binom_cdf_nonneg [OF p0 p1] binom_cdf_le_one [OF p0 p1] by blast+
  then show ?thesis by (simp add: confidence_at_def Let_def)
qed

lemma round_half_even_nonneg: "0 \<le> q \<Longrightarrow> 0 \<le> round_half_even q"
  by (auto simp: round_half_even_def Let_def)

lemma fl_double_nonneg: "0 \<le> x \<Longrightarrow> 0 \<le> fl_double x"
proof -
  assume x: "0 \<le> x"
  have "0 \<le> round_half_even (\<bar>x\<bar> / 2 powr (of_int (double_exponent x) - 52))"
    by (rule round_half_even_nonneg) simp
  then show ?thesis using x by (simp add: fl_double_def Let_def sgn_if)
qed

lemma double_exponent_eq:
  assumes "2 powr of_int k \<le> \<bar>x\<bar>" and "\<bar>x\<bar> < 2 powr of_int (k + 1)" and "- 1022 \<le> k"
  shows "double_exponent x = k"
proof -
  have pos: "0 < \<bar>x\<bar>" using assms(1) by (rule less_le_trans [rotated]) simp
  have "\<lfloor>log 2 \<bar>x\<bar>\<rfloor> = k"
    using floor_log_eq_powr_iff [of "\<bar>x\<bar>" 2 k] pos assms(1,2) by simp
  then show ?thesis using assms(3) by (simp add: double_exponent_def)
qed

lemma fl_double_one: "fl_double 1 = 1"
proof -
  have e: "double_exponent 1 = 0"
    by (rule double_exponent_eq) simp_all
  have u: "(2::real) powr (of_int (double_exponent 1) - 52) = 1 / 4503599627370496"
    by (simp add: e powr_minus_divide)
  show ?thesis
    unfolding fl_double_def Let_def u
    by (simp add: round_half_even_def)
qed

lemma fl_double_tie: "fl_double (3 * double_third) = 1"
proof -
  have x: "3 * double_third = 18014398509481983 / 18014398509481984"
    by (simp add: double_third_def)
  have e: "double_exponent (18014398509481983 / 18014398509481984) = - 1"
    by (rule double_exponent_eq) (simp_all add: powr_minus_divide)
  have u: "(2::real) powr (of_int (double_exponent (18014398509481983 / 18014398509481984)) - 52)
             = 1 / 9007199254740992"
    by (simp add: e powr_minus_divide)
  have f: "\<lfloor>(18014398509481983 / 2 :: real)\<rfloor> = 9007199254740991"
    by (simp add: floor_eq_iff)
  show ?thesis
    unfolding x fl_double_def Let_def u
    by (simp add: round_half_even_def f)
qed

lemma floor_tie: "\<lfloor>3 * double_third\<rfloor> = 0"
  by (simp add: double_third_def floor_eq_iff)

lemma binom_cdf_2_3:
  "binom_cdf 2 (Suc (Suc (Suc 0))) p = (1 - p) ^ 3 + 3 * p * (1 - p)\<^sup>2 + 3 * p\<^sup>2 * (1 - p)"
  by (simp add: binom_cdf_def upt_rec numeral_3_eq_3 numeral_2_eq_2 binomial_Suc_Suc power2_eq_square
      power3_eq_cube)

lemma binom_cdf_full: "binom_cdf (int n) n p = 1"
proof -
  let ?f = "\<lambda>i. real (n choose i) * p ^ i * (1 - p) ^ (n - i)"
  have "binom_cdf (int n) n p = sum ?f {0 ..< Suc n}"
    by (simp add: binom_cdf_def interv_sum_list_conv_sum_set_nat)
  also have "{0 ..< Suc n} = {..n}" by auto
  also have "sum ?f {..n} = (p + (1 - p)) ^ n"
    unfolding binomial_ring by simp
  also have "\<dots> = 1" by simp
  finally show ?thesis .
qed

lemma predict_fitted:
  assumes "decision_scores d = Some train" and "threshold d = Some t" and "labels d = Some ls"
  shows "predict df d G False = Inr (Labels (map (\<lambda>s. if t < s then 1 else 0) (df G)))
         \<and> (df G \<noteq> [] \<longrightarrow>
               predict df d G True =
                 Inr (LabelsConf (map (\<lambda>s. if t < s then 1 else 0) (df G))
                        (map (confidence_at train (contamination d) t) (df G))))
         \<and> (df G = [] \<longrightarrow>
               predict df d G True =
                 Inl (ValueError [''cannot call vectorize on size 0 inputs unless otypes is set'']))"
proof -
  have 1: "predict df d G False = Inr (Labels (map (\<lambda>s. if t < s then 1 else 0) (df G)))"
    using assms by (simp add: predict_def threshold_labels_def)
  have 2: "predict df d G True =
                 Inr (LabelsConf (map (\<lambda>s. if t < s then 1 else 0) (df G))
                        (map (confidence_at train (contamination d) t) (df G)))"
    if "df G \<noteq> []"
    using assms predict_confidence_fitted [where df = df and G = G, OF assms that]
    by (simp add: predict_def threshold_labels_def)
  have 3: "predict df d G True =
                 Inl (ValueError [''cannot call vectorize on size 0 inputs unless otypes is set''])"
    if "df G = []"
    using assms predict_confidence_empty [where df = df and G = G, OF assms that]
    by (simp add: predict_def)
  show ?thesis using 1 2 3 by blast
qed

text \<open>
  C2. \<^verbatim>\<open>predict\<close> labels each node 1 where its score strictly exceeds \<^verbatim>\<open>threshold_\<close>
  and 0 otherwise, and is documented to return, with \<^verbatim>\<open>return_confidence\<close>, the pair of
  the labels and an array of one confidence per node. On a fitted detector it does so
  on every graph with at least one node (lemma \<open>predict_fitted\<close>). On a graph without
  nodes the call without \<^verbatim>\<open>return_confidence\<close> returns the empty array of labels, but
  the call with it returns no pair: it raises the ValueError of \<^verbatim>\<open>np.vectorize\<close> on an
  input of size 0, from \<^verbatim>\<open>predict_confidence\<close>. The detector below is the outcome of
  \<^verbatim>\<open>_process_decision_scores\<close> on the scores 1 and 3.
\<close>

theorem predict_confidence_empty_graph:
  "process_decision_scores
     \<lparr>contamination = 1/2, decision_scores = Some [1, 3], threshold = None,
      labels = None, mu = None, sigma = None\<rparr>
   = Inr \<lparr>contamination = 1/2, decision_scores = Some [1, 3], threshold = Some 2,
          labels = Some [0, 1], mu = Some 2, sigma = Some 1\<rparr>
   \<and> predict (\<lambda>G::unit. [])
        \<lparr>contamination = 1/2, decision_scores = Some [1, 3], threshold = Some 2,
         labels = Some [0, 1], mu = Some 2, sigma = Some 1\<rparr> () False
      = Inr (Labels [])
   \<and> predict (\<lambda>G::unit. [])
        \<lparr>contamination = 1/2, decision_scores = Some [1, 3], threshold = Some 2,
         labels = Some [0, 1], mu = Some 2, sigma = Some 1\<rparr> () True
      = Inl (ValueError [''cannot call vectorize on size 0 inputs unless otypes is set''])
   \<and> predict (\<lambda>G::unit. [3, 2, 1])
        \<lparr>contamination = 1/2, decision_scores = Some [1, 3], threshold = Some 2,
         labels = Some [0, 1], mu = Some 2, sigma = Some 1\<rparr> () False
      = Inr (Labels [1, 0, 0])"
  by (simp add: process_decision_scores_def percentile_def Let_def threshold_labels_def mean_def
      std_def predict_def predict_confidence_def np_vectorize_def)

text \<open>
  C3, as the code has it. On a fitted detector with \<open>n\<close> training scores and a graph
  with at least one node, \<^verbatim>\<open>predict_confidence\<close> returns, in the order of the test
  scores, for each test score \<open>x\<close>: with \<open>k\<close> the number of training scores at most
  \<open>x\<close>, \<open>p = (1 + k) / (2 + n)\<close> and \<open>c = 1 - BinomCDF(m; n, p)\<close>, the value \<open>c\<close> when
  \<open>x\<close> exceeds the threshold and \<open>1 - c\<close> otherwise, where \<open>m\<close> is \<open>n\<close> minus the
  truncation of the double-precision product of \<open>n\<close> and the contamination. Every
  reported confidence lies in [0, 1]. Where the contamination is not negative and the
  rounding of the product does not change its integer part, \<open>m\<close> is
  \<open>n - floor (n * contamination)\<close> and the value is the one of the specification.
\<close>

theorem predict_confidence_formula:
  assumes "decision_scores d = Some train" and "threshold d = Some t" and "labels d = Some ls"
    and "df G \<noteq> []"
  shows "predict_confidence df d G = Inr (map (confidence_at train (contamination d) t) (df G))
         \<and> (\<forall>x \<in> set (df G). 0 \<le> confidence_at train (contamination d) t x
                                 \<and> confidence_at train (contamination d) t x \<le> 1)
         \<and> (0 \<le> contamination d
              \<and> \<lfloor>fl_double (real (length train) * contamination d)\<rfloor>
                  = \<lfloor>real (length train) * contamination d\<rfloor>
              \<longrightarrow> (\<forall>x. confidence_at train (contamination d) t x
                         = confidence_of train (contamination d) t x))"
proof -
  have 1: "predict_confidence df d G = Inr (map (confidence_at train (contamination d) t) (df G))"
    by (rule predict_confidence_fitted [where df = df and G = G, OF assms])
  have 3: "\<forall>x. confidence_at train (contamination d) t x = confidence_of train (contamination d) t x"
    if c: "0 \<le> contamination d"
      and f: "\<lfloor>fl_double (real (length train) * contamination d)\<rfloor>
                  = \<lfloor>real (length train) * contamination d\<rfloor>"
  proof -
    have "0 \<le> real (length train) * contamination d" using c by simp
    then have "0 \<le> fl_double (real (length train) * contamination d)" by (rule fl_double_nonneg)
    then have "np_int (fl_double (real (length train) * contamination d))
                 = \<lfloor>real (length train) * contamination d\<rfloor>"
      using f by (simp add: np_int_def)
    then show ?thesis by (simp add: confidence_at_def confidence_of_def)
  qed
  show ?thesis using 1 3 confidence_at_bounds by blast
qed

theorem predict_confidence_formula_witness:
  "predict_confidence (\<lambda>G::unit. [3, 1])
     \<lparr>contamination = 1/2, decision_scores = Some [1, 3], threshold = Some 2,
      labels = Some [0, 1], mu = Some 2, sigma = Some 1\<rparr> ()
   = Inr [9/16, 3/4]
   \<and> map (confidence_of [1, 3] (1/2) 2) [3, 1] = [9/16, 3/4]"
proof -
  have b: "binom_cdf 1 (Suc (Suc 0)) p = (1 - p)\<^sup>2 + 2 * p * (1 - p)" for p
    by (simp add: binom_cdf_def upt_rec power2_eq_square)
  have c: "map (confidence_of [1, 3] (1/2) 2) [3, 1] = [9/16, 3/4]"
    by (simp add: confidence_of_def b power2_eq_square)
  show ?thesis
    using predict_confidence_formula
      [of "\<lparr>contamination = 1/2, decision_scores = Some [1, 3], threshold = Some 2,
      labels = Some [0, 1], mu = Some 2, sigma = Some 1\<rparr>" "[1, 3]" 2 "[0, 1]" "\<lambda>G::unit. [3, 1]" "()"]
      c
    by (simp add: fl_double_one)
qed

text \<open>
  The claim C3 as stated, with \<open>m = n - floor (n * contamination)\<close>, fails where the
  rounding of the product reaches an integer. With the contamination \<^verbatim>\<open>1/3\<close> (the
  double nearest to one third, slightly less) and three training scores, the exact
  product is less than 1 but the double product is 1.0. For the test score 2 the code
  computes with \<open>m = 2\<close> and reports 98/125; the formula of the claim has \<open>m = 3\<close>
  and gives 1.
\<close>

theorem predict_confidence_rounded_product:
  "process_decision_scores
     \<lparr>contamination = double_third, decision_scores = Some [1, 2, 3], threshold = None,
      labels = None, mu = None, sigma = None\<rparr>
   = Inr \<lparr>contamination = double_third, decision_scores = Some [1, 2, 3],
          threshold = Some (3 - 2 * double_third), labels = Some [0, 0, 1],
          mu = Some 2, sigma = Some (sqrt (2 / 3))\<rparr>
   \<and> predict_confidence (\<lambda>G::unit. [2])
        \<lparr>contamination = double_third, decision_scores = Some [1, 2, 3],
         threshold = Some (3 - 2 * double_third), labels = Some [0, 0, 1],
         mu = Some 2, sigma = Some (sqrt (2 / 3))\<rparr> ()
       = Inr [98 / 125]
   \<and> map (confidence_of [1, 2, 3] double_third (3 - 2 * double_third)) [2] = [1]"
proof -
  have p: "process_decision_scores
     \<lparr>contamination = double_third, decision_scores = Some [1, 2, 3], threshold = None,
      labels = None, mu = None, sigma = None\<rparr>
   = Inr \<lparr>contamination = double_third, decision_scores = Some [1, 2, 3],
          threshold = Some (3 - 2 * double_third), labels = Some [0, 0, 1],
          mu = Some 2, sigma = Some (sqrt (2 / 3))\<rparr>"
    by (simp add: process_decision_scores_def percentile_def Let_def threshold_labels_def
        mean_def std_def double_third_def)
  have t: "\<not> 3 - 2 * double_third < 2" by (simp add: double_third_def)
  have code: "confidence_at [1, 2, 3] double_third (3 - 2 * double_third) 2 = 98 / 125"
    using t fl_double_tie
    by (simp add: confidence_at_def np_int_def binom_cdf_2_3 power2_eq_square power3_eq_cube)
  have spec: "confidence_of [1, 2, 3] double_third (3 - 2 * double_third) 2 = 1"
    using t floor_tie binom_cdf_full [of "Suc (Suc (Suc 0))" "3 / 5"]
    by (simp add: confidence_of_def)
  have "predict_confidence (\<lambda>G::unit. [2])
        \<lparr>contamination = double_third, decision_scores = Some [1, 2, 3],
         threshold = Some (3 - 2 * double_third), labels = Some [0, 0, 1],
         mu = Some 2, sigma = Some (sqrt (2 / 3))\<rparr> ()
       = Inr [98 / 125]"
    using predict_confidence_fitted
      [of "\<lparr>contamination = double_third, decision_scores = Some [1, 2, 3],
         threshold = Some (3 - 2 * double_third), labels = Some [0, 0, 1],
         mu = Some 2, sigma = Some (sqrt (2 / 3))\<rparr>" "[1, 2, 3]" "3 - 2 * double_third" "[0, 0, 1]"
          "\<lambda>G::unit. [2]" "()"]
    by (simp add: code)
  then show ?thesis using p spec by simp
qed

text \<open>
  C6. On a detector that lacks one of \<^verbatim>\<open>decision_scores_\<close>, \<^verbatim>\<open>threshold_\<close>,
  \<^verbatim>\<open>labels_\<close>, each of \<^verbatim>\<open>predict\<close>, \<^verbatim>\<open>predict_proba\<close> and
  \<^verbatim>\<open>predict_confidence\<close> raises the not-fitted error, whatever the graph, the decision
  function, the method and the flag are; none returns a result. The three operations only
  read the detector (they are functions of it and return no new detector), and the check
  comes before the decision function is called, so the detector is left as it was.
\<close>

theorem unfitted_not_fitted_error:
  assumes "decision_scores d = None \<or> threshold d = None \<or> labels d = None"
  shows "predict df d G return_confidence = Inl NotFittedError
         \<and> predict_proba erf df d G method return_confidence = Inl NotFittedError
         \<and> predict_confidence df d G = Inl NotFittedError"
  using assms
  by (auto simp: predict_def predict_proba_def predict_confidence_def split: option.splits)

theorem unfitted_not_fitted_error_witness:
  "predict (\<lambda>G::unit. [3]) \<lparr>contamination = 1/10, decision_scores = None, threshold = None,
      labels = None, mu = None, sigma = None\<rparr> () True = Inl NotFittedError
   \<and> predict_proba (\<lambda>x. x) (\<lambda>G::unit. [3]) \<lparr>contamination = 1/10, decision_scores = None, threshold = None,
      labels = None, mu = None, sigma = None\<rparr> () ''linear'' False = Inl NotFittedError
   \<and> predict_confidence (\<lambda>G::unit. [3]) \<lparr>contamination = 1/10, decision_scores = None, threshold = None,
      labels = None, mu = None, sigma = None\<rparr> () = Inl NotFittedError"
  using unfitted_not_fitted_error
      [of "\<lparr>contamination = 1/10, decision_scores = None, threshold = None,
      labels = None, mu = None, sigma = None\<rparr>" "\<lambda>G::unit. [3]" "()" True "\<lambda>x. x" "''linear''"]
    unfitted_not_fitted_error
      [of "\<lparr>contamination = 1/10, decision_scores = None, threshold = None,
      labels = None, mu = None, sigma = None\<rparr>" "\<lambda>G::unit. [3]" "()" False "\<lambda>x. x" "''linear''"]
  by simp

text \<open>
  C7. On a fitted detector, \<^verbatim>\<open>predict_proba\<close> with a method other than
  \<^verbatim>\<open>'linear'\<close> and \<^verbatim>\<open>'unify'\<close> raises a ValueError whose arguments are the
  offending method and the text "is not a valid probability conversion method"; no
  matrix is returned.
\<close>

theorem predict_proba_invalid_method:
  assumes "decision_scores d = Some train" and "threshold d = Some t" and "labels d = Some ls"
    and "method \<noteq> ''linear''" and "method \<noteq> ''unify''"
  shows "predict_proba erf df d G method return_confidence =
           Inl (ValueError [method, ''is not a valid probability conversion method''])"
  using assms by (simp add: predict_proba_def)

theorem predict_proba_invalid_method_witness:
  "predict_proba (\<lambda>x. x) (\<lambda>G::unit. [3])
     \<lparr>contamination = 1/2, decision_scores = Some [1, 3], threshold = Some 2,
      labels = Some [0, 1], mu = Some 2, sigma = Some 1\<rparr> () ''Linear'' False
   = Inl (ValueError [''Linear'', ''is not a valid probability conversion method''])"
  using predict_proba_invalid_method
      [of "\<lparr>contamination = 1/2, decision_scores = Some [1, 3], threshold = Some 2,
      labels = Some [0, 1], mu = Some 2, sigma = Some 1\<rparr>" "[1, 3]" 2 "[0, 1]" "''Linear''"
          "\<lambda>x. x" "\<lambda>G::unit. [3]" "()" False]
  by simp

section \<open>Properties of probability calibration\<close>

lemma process_decision_scores_fields:
  assumes "process_decision_scores d0 = Inr d"
  shows "\<exists>train t. decision_scores d = Some train \<and> threshold d = Some t
           \<and> labels d = Some (threshold_labels train t)
           \<and> mu d = Some (mean train) \<and> sigma d = Some (std train)
           \<and> decision_scores d0 = Some train \<and> contamination d = contamination d0"
  using assms
  by (auto simp: process_decision_scores_def split: option.splits sum.splits)

lemma minmax_fit_nonempty: "train \<noteq> [] \<Longrightarrow> \<exists>s. minmax_fit train = Inr s"
proof (cases train)
  case Nil
  then show "train \<noteq> [] \<Longrightarrow> ?thesis" by simp
next
  case (Cons a list)
  show ?thesis unfolding minmax_fit_def Let_def Cons list.case by (rule exI) (rule refl)
qed

lemma predict_proba_linear_rows:
  assumes "decision_scores d = Some train" and "threshold d = Some t" and "labels d = Some ls"
    and "train \<noteq> []"
  shows "\<exists>cs. predict_proba erf df d G ''linear'' False = Inr (Probs (map (\<lambda>c. (Num (1 - c), Num c)) cs))
           \<and> length cs = length (df G) \<and> (\<forall>c \<in> set cs. 0 \<le> c \<and> c \<le> 1)"
proof -
  from minmax_fit_nonempty [OF assms(4)] obtain s where s: "minmax_fit train = Inr s" by blast
  define cs where "cs = map (\<lambda>x. min (max (minmax_transform s x) 0) 1) (df G)"
  have "predict_proba erf df d G ''linear'' False = Inr (Probs (map (\<lambda>c. (Num (1 - c), Num c)) cs))"
    unfolding predict_proba_def finish_proba_def cs_def using assms(1-3) s
    by (simp add: comp_def)
  moreover have "length cs = length (df G)" by (simp add: cs_def)
  moreover have "\<forall>c \<in> set cs. 0 \<le> c \<and> c \<le> 1"
  proof
    fix c assume "c \<in> set cs"
    then obtain x where "c = min (max (minmax_transform s x) 0) 1"
      unfolding cs_def by (auto simp only: set_map)
    then show "0 \<le> c \<and> c \<le> 1" by simp
  qed
  ultimately show ?thesis by blast
qed

text \<open>
  C4. \<^verbatim>\<open>predict_proba\<close> is documented to return, for each node, the pair (inlier
  probability, outlier probability) with the outlier probability in [0, 1] and the two
  summing to 1. The linear method does so (lemma \<open>predict_proba_linear_rows\<close>). The
  unify method does not on a detector whose training scores are all equal: their
  standard deviation is 0, and a test score equal to their mean is divided 0 by 0. The
  detector below is the outcome of \<^verbatim>\<open>_process_decision_scores\<close> on the scores 1 and 1;
  for a graph with one node of score 1 the unify method returns the row (NaN, NaN),
  where the linear method returns (1, 0).
\<close>

theorem predict_proba_unify_constant_scores:
  "process_decision_scores
     \<lparr>contamination = 1/10, decision_scores = Some [1, 1], threshold = None,
      labels = None, mu = None, sigma = None\<rparr>
   = Inr \<lparr>contamination = 1/10, decision_scores = Some [1, 1], threshold = Some 1,
          labels = Some [0, 0], mu = Some 1, sigma = Some 0\<rparr>
   \<and> predict_proba erf (\<lambda>G::unit. [1])
        \<lparr>contamination = 1/10, decision_scores = Some [1, 1], threshold = Some 1,
         labels = Some [0, 0], mu = Some 1, sigma = Some 0\<rparr> () ''unify'' False
       = Inr (Probs [(NaN, NaN)])
   \<and> predict_proba erf (\<lambda>G::unit. [1])
        \<lparr>contamination = 1/10, decision_scores = Some [1, 1], threshold = Some 1,
         labels = Some [0, 0], mu = Some 1, sigma = Some 0\<rparr> () ''linear'' False
       = Inr (Probs [(Num 1, Num 0)])"
  by (simp add: process_decision_scores_def percentile_def Let_def threshold_labels_def mean_def std_def
      predict_proba_def finish_proba_def np_div_def minmax_fit_def minmax_transform_def)

text \<open>
  C5. On a detector whose fitted fields were written by \<^verbatim>\<open>_process_decision_scores\<close>
  from the training scores, \<^verbatim>\<open>_mu\<close> is the mean \<open>m\<close> and \<^verbatim>\<open>_sigma\<close> the standard
  deviation \<open>s\<close> of the training scores (the square root of the mean squared deviation
  from \<open>m\<close>), and \<^verbatim>\<open>predict_proba\<close> with the method \<^verbatim>\<open>'unify'\<close> gives each test score
  \<open>x\<close> the outlier probability \<open>clip (erf ((x - m) / (s * sqrt 2)), 0, 1)\<close> (the scores
  of the graph do not enter \<open>m\<close> and \<open>s\<close>) and the inlier probability 1 minus that
  value. Where \<open>s\<close> is not 0 both are finite numbers.
\<close>

theorem predict_proba_unify:
  fixes erf :: "real \<Rightarrow> real"
  assumes "process_decision_scores d0 = Inr d" and "decision_scores d0 = Some train"
  defines "m \<equiv> sum_list train / real (length train)"
  defines "s \<equiv> sqrt (sum_list (map (\<lambda>x. (x - m)\<^sup>2) train) / real (length train))"
  defines "p \<equiv> \<lambda>x. np_clip01 (np_erf erf (np_div (x - m) (s * sqrt 2)))"
  shows "mu d = Some m \<and> sigma d = Some s
         \<and> predict_proba erf df d G ''unify'' False
             = Inr (Probs (map (\<lambda>x. (np_one_minus (p x), p x)) (df G)))
         \<and> (s \<noteq> 0 \<longrightarrow>
               (\<forall>x. p x = Num (min (max (erf ((x - m) / (s * sqrt 2))) 0) 1)
                    \<and> np_one_minus (p x)
                        = Num (1 - min (max (erf ((x - m) / (s * sqrt 2))) 0) 1)))"
proof -
  from process_decision_scores_fields [OF assms(1)] assms(2)
  obtain t where f: "decision_scores d = Some train" "threshold d = Some t"
      "labels d = Some (threshold_labels train t)" "mu d = Some (mean train)"
      "sigma d = Some (std train)"
    by auto
  have ms: "mean train = m" "std train = s" by (simp_all add: mean_def std_def m_def s_def)
  have 1: "predict_proba erf df d G ''unify'' False
             = Inr (Probs (map (\<lambda>x. (np_one_minus (p x), p x)) (df G)))"
    using f by (simp add: predict_proba_def finish_proba_def p_def comp_def ms)
  have 3: "s \<noteq> 0 \<longrightarrow>
               (\<forall>x. p x = Num (min (max (erf ((x - m) / (s * sqrt 2))) 0) 1)
                    \<and> np_one_minus (p x)
                        = Num (1 - min (max (erf ((x - m) / (s * sqrt 2))) 0) 1))"
    by (simp add: p_def np_div_def)
  show ?thesis using 1 3 f(4,5) ms by simp
qed

theorem predict_proba_unify_witness:
  "predict_proba (\<lambda>x. x) (\<lambda>G::unit. [5, 2, 1])
     \<lparr>contamination = 1/2, decision_scores = Some [1, 3], threshold = Some 2,
      labels = Some [0, 1], mu = Some 2, sigma = Some 1\<rparr> () ''unify'' False
   = Inr (Probs [(Num 0, Num 1), (Num 1, Num 0), (Num 1, Num 0)])"
proof -
  have s: "sqrt 2 \<le> 3" by (rule real_le_lsqrt) simp_all
  have m: "min (3 / sqrt 2) 1 = 1" using s by (simp add: min_def field_simps)
  have h: "process_decision_scores
     \<lparr>contamination = 1/2, decision_scores = Some [1, 3], threshold = None,
      labels = None, mu = None, sigma = None\<rparr>
   = Inr \<lparr>contamination = 1/2, decision_scores = Some [1, 3], threshold = Some 2,
          labels = Some [0, 1], mu = Some 2, sigma = Some 1\<rparr>"
    by (simp add: process_decision_scores_def percentile_def Let_def threshold_labels_def mean_def std_def)
  show ?thesis
    using predict_proba_unify [OF h, of "[1, 3]" "\<lambda>x. x" "\<lambda>G::unit. [5, 2, 1]" "()"]
    by (simp add: np_div_def m)
qed


section \<open>Properties of parameter introspection\<close>

subsection \<open>Splitting keys\<close>

lemma partition_dunder_parts:
  "partition_dunder s = (a, d, b) \<Longrightarrow> s = a @ d @ b \<and> (d = [] \<and> b = [] \<or> d = ''__'')"
  by (induction s arbitrary: a rule: partition_dunder.induct)
     (auto split: if_splits prod.splits)

lemma partition_dunder_no_delim:
  "partition_dunder s = (a, [], b) \<Longrightarrow> a = s \<and> b = []"
  using partition_dunder_parts [of s a "[]" b] by auto

lemma partition_dunder_top:
  "partition_dunder s = (a, d, b) \<Longrightarrow> partition_dunder a = (a, [], [])"
proof (induction s arbitrary: a d b rule: partition_dunder.induct)
  case 1
  then show ?case by simp
next
  case (2 c)
  then show ?case by auto
next
  case (3 c d' cs)
  show ?case
  proof (cases "c = CHR ''_'' \<and> d' = CHR ''_''")
    case True
    then show ?thesis using "3.prems" by simp
  next
    case False
    obtain a' dl b' where p: "partition_dunder (d' # cs) = (a', dl, b')"
      by (cases "partition_dunder (d' # cs)")
    have a: "a = c # a'" using "3.prems" False p by auto
    have ih: "partition_dunder a' = (a', [], [])" using "3.IH" [OF False p] .
    show ?thesis
    proof (cases a')
      case Nil
      then show ?thesis by (simp add: a)
    next
      case (Cons x xs)
      have "x = d'" using partition_dunder_parts [OF p] Cons by simp
      then show ?thesis using ih False Cons by (simp add: a)
    qed
  qed
qed

lemma top_name_no_dunder: "\<not> has_dunder (top_name s)"
  using partition_dunder_top [of s "top_name s" "fst (snd (partition_dunder s))" "snd (snd (partition_dunder s))"]
  by (simp add: has_dunder_def top_name_def)

lemma has_dunder_append: "has_dunder (a @ ''__'' @ b)"
proof (induction a)
  case Nil
  then show ?case by (simp add: has_dunder_def)
next
  case (Cons c a)
  obtain d rest where r: "a @ ''__'' @ b = d # rest" by (cases "a @ ''__'' @ b") auto
  show ?case using Cons r by (auto simp: has_dunder_def split: prod.splits)
qed

lemma plain_name_partition:
  "plain_name k \<Longrightarrow> partition_dunder (k @ ''__'' @ sub) = (k, ''__'', sub)"
  unfolding plain_name_def
proof (induction k)
  case Nil
  then show ?case by simp
next
  case (Cons c k)
  obtain d rest where r: "k @ ''__'' = d # rest" by (cases "k @ ''__''") auto
  then obtain rest' where r': "k @ ''__'' @ sub = d # rest'" by (cases k) auto
  have nc: "\<not> (c = CHR ''_'' \<and> d = CHR ''_'')" using Cons.prems r by auto
  have "partition_dunder (k @ ''__'') = (k, ''__'', [])"
    using Cons.prems r nc by (auto split: prod.splits)
  from Cons.IH [OF this] show ?case using r' nc by simp
qed

lemma plain_name_self: "plain_name k \<Longrightarrow> partition_dunder k = (k, [], [])"
  using partition_dunder_top [of "k @ ''__''" k "''__''" "[]"] by (simp add: plain_name_def)

lemma partition_dunder_names:
  "partition_dunder k = (key, delim, sub) \<Longrightarrow>
     top_name k = key \<and> has_dunder k = (delim \<noteq> []) \<and> (delim = [] \<longrightarrow> key = k)"
  using partition_dunder_no_delim [of k key sub]
  by (auto simp: top_name_def has_dunder_def)

lemma prefix_less: "(k :: string) < k @ c # r"
  by (induction k) simp_all

subsection \<open>The entries of \<^verbatim>\<open>get_params\<close>\<close>

lemma get_params_fold: "get_params e deep = fold (gp_step e deep) (sort (init_names e)) []"
  by (subst get_params.simps) (simp only: gp_step_def [abs_def])

lemma map_of_fold_update_hit:
  "distinct (map fst kvs) \<Longrightarrow>
     map_of (fold (\<lambda>(k, v). AList.update (p @ k) v) kvs out) (p @ k) =
       (case map_of kvs k of Some v \<Rightarrow> Some v | None \<Rightarrow> map_of out (p @ k))"
proof (induction kvs arbitrary: out)
  case Nil
  then show ?case by simp
next
  case (Cons a kvs)
  obtain k0 v0 where a: "a = (k0, v0)" by (cases a)
  have d: "distinct (map fst kvs)" and n: "map_of kvs k0 = None"
    using Cons.prems by (auto simp: a map_of_eq_None_iff)
  show ?case
    using Cons.IH [OF d, of "AList.update (p @ k0) v0 out"] n
    by (auto simp: a update_conv' split: option.splits)
qed

lemma map_of_fold_update_miss:
  "(\<And>k. k \<in> fst ` set kvs \<Longrightarrow> K \<noteq> p @ k) \<Longrightarrow>
     map_of (fold (\<lambda>(k, v). AList.update (p @ k) v) kvs out) K = map_of out K"
proof (induction kvs arbitrary: out)
  case Nil
  then show ?case by simp
next
  case (Cons a kvs)
  obtain k0 v0 where a: "a = (k0, v0)" by (cases a)
  have "map_of (fold (\<lambda>(k, v). AList.update (p @ k) v) kvs (AList.update (p @ k0) v0 out)) K
          = map_of (AList.update (p @ k0) v0 out) K"
    by (rule Cons.IH) (use Cons.prems in auto)
  also have "\<dots> = map_of out K" using Cons.prems [of k0] by (simp add: a update_conv')
  finally show ?case by (simp add: a)
qed

lemma fold_update_distinct:
  "distinct (map fst out) \<Longrightarrow> distinct (map fst (fold (\<lambda>(k, v). AList.update (f k) v) kvs out))"
  by (induction kvs arbitrary: out) (auto simp: distinct_update)

lemma gp_step_distinct: "distinct (map fst out) \<Longrightarrow> distinct (map fst (gp_step e deep key out))"
  unfolding gp_step_def Let_def
  by (rule distinct_update) (auto split: val.splits intro: fold_update_distinct)

lemma get_params_distinct: "distinct (map fst (get_params e deep))"
  unfolding get_params_fold
  by (rule fold_invariant [where Q = "\<lambda>_. True" and P = "\<lambda>out. distinct (map fst out)"])
     (simp_all add: gp_step_distinct)

lemma get_params_map_of_iff:
  "map_of (get_params e deep) k = Some v \<longleftrightarrow> (k, v) \<in> set (get_params e deep)"
  using get_params_distinct [of e deep] by (auto dest: map_of_SomeD intro: map_of_is_SomeI)

lemma gp_step_map_of:
  "map_of (gp_step e deep key out) K =
     (if K = key then Some (getattr e key)
      else (case getattr e key of
              VEst s \<Rightarrow>
                if deep \<and> (\<exists>sub. K = key @ ''__'' @ sub \<and> map_of (get_params s True) sub \<noteq> None)
                then map_of (get_params s True) (drop (length key + 2) K)
                else map_of out K
            | _ \<Rightarrow> map_of out K))"
proof (cases "K = key")
  case True
  then show ?thesis by (simp add: gp_step_def Let_def update_conv')
next
  case False
  show ?thesis
  proof (cases "getattr e key")
    case (VEst s)
    show ?thesis
    proof (cases "deep \<and> (\<exists>sub. K = key @ ''__'' @ sub \<and> map_of (get_params s True) sub \<noteq> None)")
      case True
      then obtain sub v where K: "K = (key @ ''__'') @ sub" and v: "map_of (get_params s True) sub = Some v"
        by auto
      have "map_of (fold (\<lambda>(k, v). AList.update ((key @ ''__'') @ k) v) (get_params s True) out) ((key @ ''__'') @ sub)
              = Some v"
        using map_of_fold_update_hit [where kvs = "get_params s True" and p = "key @ ''__''"
              and out = out and k = sub, OF get_params_distinct] v by simp
      then show ?thesis using True False VEst v K
        by (simp add: gp_step_def Let_def update_conv')
    next
      case F: False
      have "map_of (fold (\<lambda>(k, v). AList.update ((key @ ''__'') @ k) v) (get_params s True) out) K = map_of out K"
        if deep
      proof (rule map_of_fold_update_miss)
        fix k assume "k \<in> fst ` set (get_params s True)"
        then have "map_of (get_params s True) k \<noteq> None" by (simp add: map_of_eq_None_iff)
        then show "K \<noteq> (key @ ''__'') @ k" using F that by auto
      qed
      then show ?thesis using F False VEst
        by (auto simp: gp_step_def Let_def update_conv')
    qed
  qed (use False in \<open>simp_all add: gp_step_def Let_def update_conv'\<close>)
qed

lemma gp_step_map_of_key: "map_of (gp_step e deep key out) key = Some (getattr e key)"
  by (simp add: gp_step_map_of)

lemma gp_step_map_of_sub:
  assumes "getattr e key = VEst s" and "deep" and "map_of (get_params s True) sub = Some v"
  shows "map_of (gp_step e deep key out) (key @ ''__'' @ sub) = Some v"
proof -
  have ne: "key @ ''__'' @ sub \<noteq> key" by simp
  have ex: "\<exists>sub'. key @ ''__'' @ sub = key @ ''__'' @ sub' \<and> map_of (get_params s True) sub' \<noteq> None"
    using assms(3) by (intro exI [of _ sub]) simp
  have "map_of (gp_step e deep key out) (key @ ''__'' @ sub)
          = map_of (get_params s True) (drop (length key + 2) (key @ ''__'' @ sub))"
    unfolding gp_step_map_of using ne ex assms(1,2) by (simp only: if_False if_True val.case simp_thms)
  then show ?thesis using assms(3) by simp
qed

lemma gp_step_map_of_other:
  assumes "K \<noteq> key"
    and "\<And>s sub. deep \<Longrightarrow> getattr e key = VEst s \<Longrightarrow> K = key @ ''__'' @ sub
           \<Longrightarrow> map_of (get_params s True) sub = None"
  shows "map_of (gp_step e deep key out) K = map_of out K"
proof (cases "getattr e key")
  case (VEst s)
  have "\<not> (deep \<and> (\<exists>sub. K = key @ ''__'' @ sub \<and> map_of (get_params s True) sub \<noteq> None))"
  proof
    assume "deep \<and> (\<exists>sub. K = key @ ''__'' @ sub \<and> map_of (get_params s True) sub \<noteq> None)"
    then obtain sub where d: "deep" and k: "K = key @ ''__'' @ sub"
      and nn: "map_of (get_params s True) sub \<noteq> None"
      by (elim conjE exE)
    have "map_of (get_params s True) sub = None" by (rule assms(2) [OF d VEst k])
    with nn show False by (rule notE)
  qed
  then show ?thesis unfolding gp_step_map_of using assms(1) VEst
    by (simp only: if_False val.case)
qed (simp_all only: gp_step_map_of assms(1) if_False val.case)

lemma fold_gp_step_keeps:
  "K \<in> set ks \<or> map_of out K \<noteq> None \<Longrightarrow> map_of (fold (gp_step e deep) ks out) K \<noteq> None"
proof (induction ks arbitrary: out)
  case Nil
  then show ?case by simp
next
  case (Cons key ks)
  have "K \<in> set ks \<or> map_of (gp_step e deep key out) K \<noteq> None"
    using Cons.prems by (auto simp: gp_step_map_of split: val.splits)
  from Cons.IH [OF this] show ?case by simp
qed

lemma fold_gp_step_keys:
  "map_of (fold (gp_step e deep) ks out) K \<noteq> None \<Longrightarrow>
     K \<in> set ks \<or> has_dunder K \<or> map_of out K \<noteq> None"
proof (induction ks arbitrary: out)
  case Nil
  then show ?case by simp
next
  case (Cons key ks)
  from Cons.IH [of "gp_step e deep key out"] Cons.prems
  have "K \<in> set ks \<or> has_dunder K \<or> map_of (gp_step e deep key out) K \<noteq> None" by simp
  moreover have "K = key \<or> has_dunder K \<or> map_of out K \<noteq> None"
    if "map_of (gp_step e deep key out) K \<noteq> None"
    using that has_dunder_append [of key]
    by (auto simp: gp_step_map_of split: val.splits if_splits)
  ultimately show ?case by auto
qed

lemma get_params_has_name:
  "k \<in> set (init_names e) \<Longrightarrow> map_of (get_params e deep) k \<noteq> None"
  unfolding get_params_fold by (rule fold_gp_step_keeps) simp

lemma get_params_key_cases:
  "map_of (get_params e deep) K \<noteq> None \<Longrightarrow> K \<in> set (init_names e) \<or> has_dunder K"
  unfolding get_params_fold using fold_gp_step_keys [of e deep "sort (init_names e)" "[]" K] by simp

lemma valid_top_name:
  "map_of (get_params e deep) (top_name k) = None \<longleftrightarrow> top_name k \<notin> set (init_names e)"
  using get_params_has_name [of "top_name k" e deep] get_params_key_cases [of e deep "top_name k"]
    top_name_no_dunder [of k]
  by blast

lemma gp_step_lookup:
  assumes "plain_name key" and "map_of out = params_lookup e deep S"
  shows "map_of (gp_step e deep key out) = params_lookup e deep (insert key S)"
proof
  fix K
  obtain a d b where p: "partition_dunder K = (a, d, b)" by (cases "partition_dunder K") auto
  note parts = partition_dunder_parts [OF p]
  have out: "map_of out K = params_lookup e deep S K" using assms(2) by simp
  have look: "params_lookup e deep T K =
          (if a \<in> T then
            (if d = [] then Some (getattr e a)
             else (case getattr e a of
                     VEst s \<Rightarrow> if deep then map_of (get_params s True) b else None
                   | _ \<Rightarrow> None))
          else None)" for T
    by (simp add: params_lookup_def p)
  show "map_of (gp_step e deep key out) K = params_lookup e deep (insert key S) K"
  proof (cases "K = key")
    case True
    have "partition_dunder K = (key, [], [])" using plain_name_self [OF assms(1)] True by simp
    then have "a = key" "d = []" using p by simp_all
    then have "params_lookup e deep (insert key S) K = Some (getattr e key)"
      unfolding look by simp
    then show ?thesis using gp_step_map_of_key [of e deep key out] True by simp
  next
    case False
    show ?thesis
    proof (cases "a = key")
      case ne: False
      have "map_of (gp_step e deep key out) K = map_of out K"
      proof (rule gp_step_map_of_other [OF False])
        fix s sub assume "K = key @ ''__'' @ sub"
        then have "partition_dunder K = (key, ''__'', sub)"
          using plain_name_partition [OF assms(1), of sub] by simp
        then have False using p ne by simp
        then show "map_of (get_params s True) sub = None" ..
      qed
      also have "\<dots> = params_lookup e deep (insert key S) K"
        unfolding out look using ne by simp
      finally show ?thesis .
    next
      case eq: True
      have d: "d \<noteq> []" using parts eq False by auto
      then have K: "K = key @ ''__'' @ b" using parts eq by auto
      define r where "r = (case getattr e key of
                     VEst s \<Rightarrow> if deep then map_of (get_params s True) b else None
                   | _ \<Rightarrow> None)"
      have rhs: "params_lookup e deep (insert key S) K = r"
        unfolding look r_def using eq d by simp
      have rhs': "key \<in> S \<Longrightarrow> map_of out K = r"
        unfolding out look r_def using eq d by simp
      have rhs'': "key \<notin> S \<Longrightarrow> map_of out K = None"
        unfolding out look using eq by simp
      show ?thesis
      proof (cases r)
        case (Some v)
        then obtain s where s: "getattr e key = VEst s" "deep" "map_of (get_params s True) b = Some v"
          unfolding r_def by (auto split: val.splits if_splits)
        have "map_of (gp_step e deep key out) (key @ ''__'' @ b) = Some v"
          by (rule gp_step_map_of_sub [OF s])
        then show ?thesis unfolding rhs Some by (simp only: K)
      next
        case None
        have "map_of (gp_step e deep key out) K = map_of out K"
        proof (rule gp_step_map_of_other [OF False])
          fix s sub assume a: "deep" "getattr e key = VEst s" "K = key @ ''__'' @ sub"
          then have "sub = b" using K by simp
          then show "map_of (get_params s True) sub = None"
            using None a(1,2) unfolding r_def by simp
        qed
        also have "\<dots> = None" using rhs' rhs'' None by (cases "key \<in> S") simp_all
        finally show ?thesis unfolding rhs None .
      qed
    qed
  qed
qed

lemma fold_gp_step_lookup:
  assumes "\<forall>k \<in> set ks. plain_name k" and "map_of out = params_lookup e deep S"
  shows "map_of (fold (gp_step e deep) ks out) = params_lookup e deep (S \<union> set ks)"
  using assms
proof (induction ks arbitrary: out S)
  case Nil
  then show ?case by simp
next
  case (Cons key ks)
  have "map_of (gp_step e deep key out) = params_lookup e deep (insert key S)"
    by (rule gp_step_lookup) (use Cons.prems in auto)
  from Cons.IH [OF _ this] Cons.prems(1) show ?case by simp
qed

lemma get_params_lookup:
  assumes "\<forall>k \<in> set (init_names e). plain_name k"
  shows "map_of (get_params e deep) = params_lookup e deep (set (init_names e))"
proof -
  have "map_of [] = params_lookup e deep {}" by (auto simp: params_lookup_def split: prod.splits)
  from fold_gp_step_lookup [OF _ this, of "sort (init_names e)"] assms
  show ?thesis by (simp add: get_params_fold)
qed

lemma gp_step_shallow: "gp_step e False key out = AList.update key (getattr e key) out"
  by (cases "getattr e key") (simp_all add: gp_step_def Let_def)

lemma fold_gp_step_shallow:
  "map_of (fold (gp_step e False) ks out) K =
     (if K \<in> set ks then Some (getattr e K) else map_of out K)"
  by (induction ks arbitrary: out) (simp_all add: gp_step_shallow update_conv')

lemma get_params_shallow:
  "map_of (get_params e False) K = (if K \<in> set (init_names e) then Some (getattr e K) else None)"
  unfolding get_params_fold by (simp add: fold_gp_step_shallow)

lemma get_params_sub_present:
  assumes "key \<in> set (init_names e)" and "getattr e key = VEst sub"
    and "map_of (get_params sub True) k \<noteq> None"
  shows "map_of (get_params e True) (key @ ''__'' @ k) \<noteq> None"
proof -
  from assms(1) have "key \<in> set (sort (init_names e))" by simp
  from split_list [OF this]
  obtain xs ys where s: "sort (init_names e) = xs @ key # ys" by blast
  from assms(3) obtain v where v: "map_of (get_params sub True) k = Some v" by blast
  have "map_of (gp_step e True key (fold (gp_step e True) xs [])) (key @ ''__'' @ k) = Some v"
    by (rule gp_step_map_of_sub [OF assms(2) _ v]) simp
  then have "map_of (fold (gp_step e True) ys (gp_step e True key (fold (gp_step e True) xs [])))
               (key @ ''__'' @ k) \<noteq> None"
    by (intro fold_gp_step_keeps) simp
  then show ?thesis by (simp add: get_params_fold s)
qed

lemma fold_gp_step_later:
  assumes "\<forall>k2 \<in> set ks. \<not> (\<exists>sub. K = k2 @ ''__'' @ sub) \<and> (k2 = K \<longrightarrow> v = getattr e K)"
    and "map_of out K = Some v"
  shows "map_of (fold (gp_step e deep) ks out) K = Some v"
  using assms
proof (induction ks arbitrary: out)
  case Nil
  then show ?case by simp
next
  case (Cons k2 ks)
  have "map_of (gp_step e deep k2 out) K = Some v"
  proof (cases "K = k2")
    case True
    then show ?thesis using Cons.prems(1) gp_step_map_of_key [of e deep k2 out] by simp
  next
    case False
    have "map_of (gp_step e deep k2 out) K = map_of out K"
    proof (rule gp_step_map_of_other [OF False])
      fix s sub assume "K = k2 @ ''__'' @ sub"
      then have False using Cons.prems(1) by simp
      then show "map_of (get_params s True) sub = None" ..
    qed
    then show ?thesis using Cons.prems(2) by simp
  qed
  from Cons.IH [OF _ this] Cons.prems(1) show ?case by simp
qed

lemma get_params_top_level:
  assumes "key \<in> set (init_names e)"
  shows "map_of (get_params e deep) key = Some (getattr e key)"
proof -
  from assms have "key \<in> set (sort (init_names e))" by simp
  from split_list [OF this]
  obtain xs ys where s: "sort (init_names e) = xs @ key # ys" by blast
  have "sorted (xs @ key # ys)" using sorted_sort [of "init_names e"] by (simp only: s)
  then have later: "\<forall>k2 \<in> set ys. key \<le> k2" by (simp add: sorted_append)
  have "map_of (fold (gp_step e deep) ys (gp_step e deep key (fold (gp_step e deep) xs []))) key
          = Some (getattr e key)"
  proof (rule fold_gp_step_later)
    show "map_of (gp_step e deep key (fold (gp_step e deep) xs [])) key = Some (getattr e key)"
      by (rule gp_step_map_of_key)
  next
    show "\<forall>k2 \<in> set ys. \<not> (\<exists>sub. key = k2 @ ''__'' @ sub)
              \<and> (k2 = key \<longrightarrow> getattr e key = getattr e key)"
    proof
      fix k2 assume k2: "k2 \<in> set ys"
      have "\<not> (\<exists>sub. key = k2 @ ''__'' @ sub)"
      proof
        assume "\<exists>sub. key = k2 @ ''__'' @ sub"
        then obtain sub where "key = k2 @ CHR ''_'' # (CHR ''_'' # sub)" by auto
        then have "k2 < key" using prefix_less [of k2 "CHR ''_''" "CHR ''_'' # sub"] by simp
        then show False using later k2 by auto
      qed
      then show "\<not> (\<exists>sub. key = k2 @ ''__'' @ sub)
              \<and> (k2 = key \<longrightarrow> getattr e key = getattr e key)" by simp
    qed
  qed
  then show ?thesis by (simp add: get_params_fold s)
qed

text \<open>
  C10. If a declared parameter \<open>key\<close> of an estimator holds a nested estimator, then
  \<^verbatim>\<open>get_params(deep=True)\<close> has the nested estimator itself under \<open>key\<close> and
  an entry \<open>key__k\<close> for every parameter \<open>k\<close> of the nested estimator's own
  \<^verbatim>\<open>get_params()\<close>; when the declared names are plain, the entry \<open>key__k\<close> holds
  exactly the nested value of \<open>k\<close> (and nothing else is entered under a key of this
  form). \<^verbatim>\<open>get_params(deep=False)\<close> has exactly the declared names, each with the value
  of its attribute.
\<close>

theorem get_params_nested:
  assumes "key \<in> set (init_names e)" and "getattr e key = VEst sub"
  shows "map_of (get_params e True) key = Some (VEst sub)
         \<and> (\<forall>k. map_of (get_params sub True) k \<noteq> None
                \<longrightarrow> map_of (get_params e True) (key @ ''__'' @ k) \<noteq> None)
         \<and> ((\<forall>n \<in> set (init_names e). plain_name n) \<longrightarrow>
               (\<forall>k. map_of (get_params e True) (key @ ''__'' @ k) = map_of (get_params sub True) k))
         \<and> (\<forall>K. map_of (get_params e False) K =
                  (if K \<in> set (init_names e) then Some (getattr e K) else None))"
proof -
  have 1: "map_of (get_params e True) key = Some (VEst sub)"
    using get_params_top_level [OF assms(1), of True] assms(2) by simp
  have 2: "\<forall>k. map_of (get_params sub True) k \<noteq> None
                \<longrightarrow> map_of (get_params e True) (key @ ''__'' @ k) \<noteq> None"
    using get_params_sub_present [OF assms] by blast
  have 3: "\<forall>k. map_of (get_params e True) (key @ ''__'' @ k) = map_of (get_params sub True) k"
    if plain: "\<forall>n \<in> set (init_names e). plain_name n"
  proof
    fix k
    have pk: "plain_name key" using plain assms(1) by blast
    show "map_of (get_params e True) (key @ ''__'' @ k) = map_of (get_params sub True) k"
      unfolding get_params_lookup [OF plain, of True] params_lookup_def plain_name_partition [OF pk]
      using assms by simp
  qed
  have 4: "\<forall>K. map_of (get_params e False) K =
                  (if K \<in> set (init_names e) then Some (getattr e K) else None)"
    using get_params_shallow by blast
  show ?thesis using 1 2 3 4 by blast
qed

theorem get_params_nested_witness:
  "get_params (Est ''Wrap'' [''base'', ''alpha'']
                 [(''base'', VEst (base_detector (1/10))), (''alpha'', VNum 1)]) True
     = [(''alpha'', VNum 1), (''base__contamination'', VNum (1/10)),
        (''base'', VEst (base_detector (1/10)))]
   \<and> map_of (get_params (Est ''Wrap'' [''base'', ''alpha'']
                 [(''base'', VEst (base_detector (1/10))), (''alpha'', VNum 1)]) True)
        (''base'' @ ''__'' @ ''contamination'') = Some (VNum (1/10))
   \<and> get_params (Est ''Wrap'' [''base'', ''alpha'']
                 [(''base'', VEst (base_detector (1/10))), (''alpha'', VNum 1)]) False
     = [(''alpha'', VNum 1), (''base'', VEst (base_detector (1/10)))]"
  using get_params_nested [of "''base''" "Est ''Wrap'' [''base'', ''alpha'']
                 [(''base'', VEst (base_detector (1/10))), (''alpha'', VNum 1)]" "base_detector (1/10)"]
  by (simp add: get_params.simps getattr_def base_detector_def plain_name_def)

subsection \<open>Unknown parameters\<close>

lemma assign_params_invalid:
  assumes "\<forall>kv \<in> set pre. map_of valid (top_name (fst kv)) \<noteq> None"
    and "map_of valid (top_name bad) = None"
  shows "\<exists>nested'. assign_params valid (pre @ (bad, value) # post) e nested =
           (Some (InvalidParameter (top_name bad) (fold assign_plain pre e)), fold assign_plain pre e, nested')"
  using assms(1)
proof (induction pre arbitrary: e nested)
  case Nil
  obtain key delim sub where p: "partition_dunder bad = (key, delim, sub)"
    by (cases "partition_dunder bad") auto
  have "top_name bad = key" using partition_dunder_names [OF p] by simp
  then show ?case using assms(2) p by simp
next
  case (Cons a pre)
  obtain k v where a: "a = (k, v)" by (cases a)
  obtain key delim sub where p: "partition_dunder k = (key, delim, sub)"
    by (cases "partition_dunder k") auto
  note n = partition_dunder_names [OF p]
  have "map_of valid key \<noteq> None" using Cons.prems n by (simp add: a)
  then obtain y where valid: "map_of valid key = Some y" by blast
  have rest: "\<forall>kv \<in> set pre. map_of valid (top_name (fst kv)) \<noteq> None" using Cons.prems by simp
  show ?case
  proof (cases "delim = []")
    case True
    have step: "assign_plain a e = setattr e key v" using n True by (simp add: assign_plain_def a)
    from Cons.IH [OF rest, of "setattr e key v" nested]
    show ?thesis using valid True p step by (simp add: a)
  next
    case False
    have step: "assign_plain a e = e" using n False by (simp add: assign_plain_def a)
    from Cons.IH [OF rest, of e "nested_add key sub v nested"]
    show ?thesis using valid False p step by (simp add: a)
  qed
qed

lemma fold_assign_plain_nested:
  "\<forall>kv \<in> set pre. has_dunder (fst kv) \<Longrightarrow> fold assign_plain pre e = e"
  by (induction pre) (simp_all add: assign_plain_def)

lemma set_params_first_invalid:
  assumes "\<forall>kv \<in> set pre. top_name (fst kv) \<in> set (init_names e)"
    and "top_name bad \<notin> set (init_names e)"
  shows "set_params e (pre @ (bad, value) # post) =
           (Some (InvalidParameter (top_name bad) (fold assign_plain pre e)), fold assign_plain pre e)
         \<and> ((\<forall>kv \<in> set pre. has_dunder (fst kv)) \<longrightarrow> fold assign_plain pre e = e)"
proof -
  have 1: "\<forall>kv \<in> set pre. map_of (get_params e True) (top_name (fst kv)) \<noteq> None"
    using assms(1) valid_top_name [of e True] by blast
  have 2: "map_of (get_params e True) (top_name bad) = None"
    using assms(2) valid_top_name [of e True bad] by blast
  from assign_params_invalid [OF 1 2, of "value" post e "[]"]
  obtain nested' where "assign_params (get_params e True) (pre @ (bad, value) # post) e [] =
           (Some (InvalidParameter (top_name bad) (fold assign_plain pre e)), fold assign_plain pre e, nested')"
    by blast
  then have "set_params e (pre @ (bad, value) # post) =
           (Some (InvalidParameter (top_name bad) (fold assign_plain pre e)), fold assign_plain pre e)"
    by (subst set_params.simps) simp
  then show ?thesis using fold_assign_plain_nested [of pre e] by blast
qed

text \<open>
  C8, as the code has it. Keyword arguments with a key whose top-level name is not a
  declared parameter consist of arguments \<open>pre\<close> whose top-level names are all
  declared, then the first such key \<open>bad\<close>, then \<open>post\<close>. \<^verbatim>\<open>set_params\<close> raises the
  invalid-parameter error naming the top-level name of \<open>bad\<close> and the estimator. By
  then the keys of \<open>pre\<close> without delimiter have been assigned, in order; the nested
  keys of \<open>pre\<close> and all of \<open>post\<close> are not applied. In particular the estimator is
  unchanged when \<open>pre\<close> has nested keys only, or is empty.
\<close>

theorem set_params_unknown_key:
  assumes "\<exists>kv \<in> set ps. top_name (fst kv) \<notin> set (init_names e)"
  shows "\<exists>pre bad value post.
           ps = pre @ (bad, value) # post
           \<and> (\<forall>kv \<in> set pre. top_name (fst kv) \<in> set (init_names e))
           \<and> top_name bad \<notin> set (init_names e)
           \<and> set_params e ps =
               (Some (InvalidParameter (top_name bad) (fold assign_plain pre e)), fold assign_plain pre e)
           \<and> ((\<forall>kv \<in> set pre. has_dunder (fst kv)) \<longrightarrow> fold assign_plain pre e = e)"
proof -
  from split_list_first_prop [OF assms]
  obtain pre kv post where ps: "ps = pre @ kv # post"
    and bad: "top_name (fst kv) \<notin> set (init_names e)"
    and pre: "\<forall>y \<in> set pre. \<not> top_name (fst y) \<notin> set (init_names e)"
    by blast
  obtain b v where kv: "kv = (b, v)" by (cases kv)
  have pre': "\<forall>y \<in> set pre. top_name (fst y) \<in> set (init_names e)" using pre by simp
  have bad': "top_name b \<notin> set (init_names e)" using bad by (simp add: kv)
  from set_params_first_invalid [OF pre' bad', of v post]
  show ?thesis using ps pre' bad' unfolding kv by blast
qed

theorem set_params_unknown_key_witness:
  "(\<exists>kv \<in> set [(''base__contamination'', VNum (1/5)), (''bogus__x'', VNum 1), (''alpha'', VNum 3)].
       top_name (fst kv) \<notin> set (init_names (Est ''Wrap'' [''base'', ''alpha'']
                 [(''base'', VEst (base_detector (1/10))), (''alpha'', VNum 1)])))
   \<and> fst (set_params (Est ''Wrap'' [''base'', ''alpha'']
                 [(''base'', VEst (base_detector (1/10))), (''alpha'', VNum 1)])
          [(''base__contamination'', VNum (1/5)), (''bogus__x'', VNum 1), (''alpha'', VNum 3)]) \<noteq> None
   \<and> set_params (Est ''Wrap'' [''base'', ''alpha'']
                 [(''base'', VEst (base_detector (1/10))), (''alpha'', VNum 1)])
          [(''base__contamination'', VNum (1/5)), (''bogus__x'', VNum 1), (''alpha'', VNum 3)]
       = (Some (InvalidParameter ''bogus'' (Est ''Wrap'' [''base'', ''alpha'']
                 [(''base'', VEst (base_detector (1/10))), (''alpha'', VNum 1)])),
          Est ''Wrap'' [''base'', ''alpha'']
                 [(''base'', VEst (base_detector (1/10))), (''alpha'', VNum 1)])"
proof -
  have h: "\<exists>kv \<in> set [(''base__contamination'', VNum (1/5)), (''bogus__x'', VNum 1), (''alpha'', VNum 3)].
       top_name (fst kv) \<notin> set (init_names (Est ''Wrap'' [''base'', ''alpha'']
                 [(''base'', VEst (base_detector (1/10))), (''alpha'', VNum 1)]))"
    by (simp add: top_name_def)
  from set_params_unknown_key [OF h]
  obtain pre bad where "set_params (Est ''Wrap'' [''base'', ''alpha'']
                 [(''base'', VEst (base_detector (1/10))), (''alpha'', VNum 1)])
          [(''base__contamination'', VNum (1/5)), (''bogus__x'', VNum 1), (''alpha'', VNum 3)]
        = (Some (InvalidParameter (top_name bad) (fold assign_plain pre (Est ''Wrap'' [''base'', ''alpha'']
                 [(''base'', VEst (base_detector (1/10))), (''alpha'', VNum 1)]))),
           fold assign_plain pre (Est ''Wrap'' [''base'', ''alpha'']
                 [(''base'', VEst (base_detector (1/10))), (''alpha'', VNum 1)]))"
    by blast
  then have "fst (set_params (Est ''Wrap'' [''base'', ''alpha'']
                 [(''base'', VEst (base_detector (1/10))), (''alpha'', VNum 1)])
          [(''base__contamination'', VNum (1/5)), (''bogus__x'', VNum 1), (''alpha'', VNum 3)]) \<noteq> None"
    by (simp only: fst_conv) simp
  moreover have "set_params (Est ''Wrap'' [''base'', ''alpha'']
                 [(''base'', VEst (base_detector (1/10))), (''alpha'', VNum 1)])
          [(''base__contamination'', VNum (1/5)), (''bogus__x'', VNum 1), (''alpha'', VNum 3)]
       = (Some (InvalidParameter ''bogus'' (Est ''Wrap'' [''base'', ''alpha'']
                 [(''base'', VEst (base_detector (1/10))), (''alpha'', VNum 1)])),
          Est ''Wrap'' [''base'', ''alpha'']
                 [(''base'', VEst (base_detector (1/10))), (''alpha'', VNum 1)])"
    by (simp add: set_params.simps get_params.simps base_detector_def getattr_def nested_add_def)
  ultimately show ?thesis using h by blast
qed

text \<open>
  The claim C8 as stated, that no parameter changes even when other keys of the call
  are valid, fails: \<^verbatim>\<open>set_params(contamination=0.2, bogus=1)\<close> on a detector with
  contamination 0.1 raises the error for \<^verbatim>\<open>bogus\<close> after it has set the contamination
  to 0.2.
\<close>

theorem set_params_partial_mutation:
  "set_params (base_detector (1/10)) [(''contamination'', VNum (1/5)), (''bogus'', VNum 1)]
     = (Some (InvalidParameter ''bogus'' (base_detector (1/5))), base_detector (1/5))
   \<and> top_name ''bogus'' \<notin> set (init_names (base_detector (1/10)))
   \<and> getattr (base_detector (1/10)) ''contamination'' = VNum (1/10)
   \<and> getattr (base_detector (1/5)) ''contamination'' = VNum (1/5)
   \<and> base_detector (1/5) \<noteq> base_detector (1/10)"
  by (simp add: set_params.simps get_params.simps base_detector_def getattr_def setattr_def top_name_def)

subsection \<open>The round trip through \<^verbatim>\<open>get_params\<close> and \<^verbatim>\<open>set_params\<close>\<close>

text \<open>
  \<^verbatim>\<open>get_params\<close> on the store is the fold of its loop body; stores that read the
  same give the same \<^verbatim>\<open>get_params\<close>.
\<close>

lemma store_get_params_Suc:
  "store_get_params (Suc n) h a deep =
     (case h a of None \<Rightarrow> None
      | Some ob \<Rightarrow> fold (sgp_step n h ob deep) (sort (obj_names ob)) (Some []))"
  by (simp add: sgp_step_def [abs_def] split: option.splits)

declare store_get_params.simps(2) [simp del]

lemma same_reads_refl: "same_reads h h"
  by (auto simp: same_reads_def split: option.splits)

lemma same_reads_trans: "same_reads h1 h2 \<Longrightarrow> same_reads h2 h3 \<Longrightarrow> same_reads h1 h3"
  unfolding same_reads_def
proof
  fix a
  assume 12: "\<forall>a. case h1 a of None \<Rightarrow> h2 a = None
          | Some ob \<Rightarrow> (\<exists>ob'. h2 a = Some ob' \<and> obj_names ob' = obj_names ob
                     \<and> (\<forall>k. obj_getattr ob' k = obj_getattr ob k))"
    and 23: "\<forall>a. case h2 a of None \<Rightarrow> h3 a = None
          | Some ob \<Rightarrow> (\<exists>ob'. h3 a = Some ob' \<and> obj_names ob' = obj_names ob
                     \<and> (\<forall>k. obj_getattr ob' k = obj_getattr ob k))"
  show "case h1 a of None \<Rightarrow> h3 a = None
          | Some ob \<Rightarrow> (\<exists>ob'. h3 a = Some ob' \<and> obj_names ob' = obj_names ob
                     \<and> (\<forall>k. obj_getattr ob' k = obj_getattr ob k))"
  proof (cases "h1 a")
    case None
    then have "h2 a = None" using 12 [rule_format, of a] by simp
    then have "h3 a = None" using 23 [rule_format, of a] by simp
    then show ?thesis using None by simp
  next
    case (Some ob)
    then obtain ob2 where 2: "h2 a = Some ob2" "obj_names ob2 = obj_names ob"
        "\<forall>k. obj_getattr ob2 k = obj_getattr ob k"
      using 12 [rule_format, of a] by auto
    then obtain ob3 where 3: "h3 a = Some ob3" "obj_names ob3 = obj_names ob2"
        "\<forall>k. obj_getattr ob3 k = obj_getattr ob2 k"
      using 23 [rule_format, of a] by auto
    show ?thesis using Some 2 3 by simp
  qed
qed

lemma same_readsD:
  assumes "same_reads h h'" and "h a = Some ob"
  obtains ob' where "h' a = Some ob'" "obj_names ob' = obj_names ob"
    "\<And>k. obj_getattr ob' k = obj_getattr ob k"
  using assms unfolding same_reads_def by (auto split: option.splits dest!: spec [of _ a])

lemma same_reads_None: "same_reads h h' \<Longrightarrow> h a = None \<Longrightarrow> h' a = None"
  unfolding same_reads_def by (auto split: option.splits dest!: spec [of _ a])

lemma obj_getattr_setattr:
  "obj_getattr (obj_setattr ob key v) k = (if k = key then v else obj_getattr ob k)"
  by (simp add: obj_getattr_def obj_setattr_def update_conv')

lemma same_reads_setattr:
  assumes "same_reads h hc" and "h a = Some ob"
  shows "same_reads h (store_setattr hc a key (obj_getattr ob key))"
proof -
  from same_readsD [OF assms] obtain ob' where ob': "hc a = Some ob'" "obj_names ob' = obj_names ob"
    "\<And>k. obj_getattr ob' k = obj_getattr ob k" by blast
  show ?thesis
    unfolding same_reads_def
  proof
    fix b
    show "case h b of None \<Rightarrow> store_setattr hc a key (obj_getattr ob key) b = None
          | Some o1 \<Rightarrow> (\<exists>o2. store_setattr hc a key (obj_getattr ob key) b = Some o2
                     \<and> obj_names o2 = obj_names o1
                     \<and> (\<forall>k. obj_getattr o2 k = obj_getattr o1 k))"
    proof (cases "b = a")
      case True
      then show ?thesis using assms(2) ob'
        by (simp add: store_setattr_def obj_getattr_setattr) (simp add: obj_setattr_def)
    next
      case False
      then have "store_setattr hc a key (obj_getattr ob key) b = hc b"
        using ob' by (simp add: store_setattr_def)
      then show ?thesis using assms(1) unfolding same_reads_def
        by (auto split: option.splits dest!: spec [of _ b])
    qed
  qed
qed

lemma store_get_params_same_reads:
  "same_reads h h' \<Longrightarrow> store_get_params n h' a deep = store_get_params n h a deep"
proof (induction n arbitrary: a deep)
  case 0
  show ?case by simp
next
  case (Suc n)
  show ?case
  proof (cases "h a")
    case None
    then show ?thesis using same_reads_None [OF Suc.prems None] by (simp add: store_get_params_Suc)
  next
    case (Some ob)
    from same_readsD [OF Suc.prems Some] obtain ob' where ob': "h' a = Some ob'"
      "obj_names ob' = obj_names ob" "\<And>k. obj_getattr ob' k = obj_getattr ob k" by blast
    have "sgp_step n h' ob' deep = sgp_step n h ob deep"
      by (intro ext) (simp add: sgp_step_def Let_def ob'(3) Suc.IH [OF Suc.prems] split: option.splits sval.splits)
    then show ?thesis using Some ob' by (simp add: store_get_params_Suc)
  qed
qed


lemma splits_back_same_reads:
  "same_reads h h' \<Longrightarrow> splits_back n h' a = splits_back n h a"
proof (induction n arbitrary: a)
  case 0
  show ?case by simp
next
  case (Suc n)
  show ?case
  proof (cases "h a")
    case None
    then show ?thesis using same_reads_None [OF Suc.prems None] by simp
  next
    case (Some ob)
    from same_readsD [OF Suc.prems Some] obtain ob' where ob': "h' a = Some ob'"
      "obj_names ob' = obj_names ob" "\<And>k. obj_getattr ob' k = obj_getattr ob k" by blast
    have c: "splits_to_child n h' ob' K v = splits_to_child n h ob K v" for K v
      by (simp add: splits_to_child_def ob'(2,3) store_get_params_same_reads [OF Suc.prems]
            split: prod.splits sval.splits)
    show ?thesis
      by (cases "store_get_params (Suc n) h a True")
         (simp_all add: Some ob' c store_get_params_same_reads [OF Suc.prems] Suc.IH [OF Suc.prems]
            cong: sval.case_cong)
  qed
qed

lemma fold_sgp_step_None: "fold (sgp_step n h ob deep) ks None = None"
  by (induction ks) (simp_all add: sgp_step_def)

lemma sgp_step_Some:
  assumes "sgp_step n h ob deep key acc = Some out1"
  obtains out where "acc = Some out"
  using assms by (cases acc) (simp_all add: sgp_step_def)

lemma sgp_step_cases:
  assumes "sgp_step n h ob deep key (Some out) = Some out1"
  shows "(\<exists>b items. deep \<and> obj_getattr ob key = SRef b
            \<and> store_get_params n h b True = Some items
            \<and> out1 = AList.update key (SRef b)
                       (fold (\<lambda>(k, v). AList.update ((key @ ''__'') @ k) v) items out))
         \<or> ((deep \<longrightarrow> (\<forall>b. obj_getattr ob key \<noteq> SRef b))
            \<and> out1 = AList.update key (obj_getattr ob key) out)"
proof (cases "obj_getattr ob key")
  case (SRef b)
  show ?thesis
  proof (cases deep)
    case True
    then obtain items where "store_get_params n h b True = Some items"
      using assms SRef by (cases "store_get_params n h b True") (simp_all add: sgp_step_def)
    then show ?thesis using assms SRef True by (simp add: sgp_step_def)
  next
    case False
    then show ?thesis using assms SRef by (simp add: sgp_step_def)
  qed
qed (use assms in \<open>simp_all add: sgp_step_def\<close>)

lemma sgp_step_map_of_key:
  assumes "sgp_step n h ob deep key (Some out) = Some out1"
  shows "map_of out1 key = Some (obj_getattr ob key)"
  using sgp_step_cases [OF assms] by (elim disjE exE conjE) (simp_all add: update_conv')

lemma sgp_step_map_of_other:
  assumes "sgp_step n h ob deep key (Some out) = Some out1"
    and "K \<noteq> key" and "\<And>sub. K \<noteq> (key @ ''__'') @ sub"
  shows "map_of out1 K = map_of out K"
  using sgp_step_cases [OF assms(1)]
proof (elim disjE exE conjE)
  fix b items
  assume o: "out1 = AList.update key (SRef b)
                       (fold (\<lambda>(k, v). AList.update ((key @ ''__'') @ k) v) items out)"
  have "map_of (fold (\<lambda>(k, v). AList.update ((key @ ''__'') @ k) v) items out) K = map_of out K"
    by (rule map_of_fold_update_miss) (rule assms(3))
  then show ?thesis using assms(2) by (simp add: o update_conv')
next
  assume "out1 = AList.update key (obj_getattr ob key) out"
  then show ?thesis using assms(2) by (simp add: update_conv')
qed

lemma sgp_step_distinct:
  assumes "sgp_step n h ob deep key (Some out) = Some out1" and "distinct (map fst out)"
  shows "distinct (map fst out1)"
  using sgp_step_cases [OF assms(1)] assms(2)
  by (elim disjE exE conjE) (simp_all add: distinct_update fold_update_distinct)

lemma sgp_step_keys:
  assumes "sgp_step n h ob deep key (Some out) = Some out1" and "(K, v) \<in> set out1"
  shows "K = key \<or> has_dunder K \<or> (K, v) \<in> set out"
  using sgp_step_cases [OF assms(1)]
proof (elim disjE exE conjE)
  fix b items
  assume o: "out1 = AList.update key (SRef b)
                       (fold (\<lambda>(k, v). AList.update ((key @ ''__'') @ k) v) items out)"
  have "(K, v) = (key, SRef b)
        \<or> (K, v) \<in> set (fold (\<lambda>(k, v). AList.update ((key @ ''__'') @ k) v) items out)"
    using assms(2) set_update_subset [of key "SRef b"] unfolding o by blast
  then show ?thesis
  proof
    assume "(K, v) = (key, SRef b)"
    then show ?thesis by simp
  next
    assume "(K, v) \<in> set (fold (\<lambda>(k, v). AList.update ((key @ ''__'') @ k) v) items out)"
    from fold_update_values [OF this]
    have "(K, v) \<in> set out \<or> (\<exists>k'. (k', v) \<in> set items \<and> K = (key @ ''__'') @ k')" .
    then show ?thesis
    proof
      assume "\<exists>k'. (k', v) \<in> set items \<and> K = (key @ ''__'') @ k'"
      then obtain k' where "K = (key @ ''__'') @ k'" by (elim exE conjE)
      then have "has_dunder K" using has_dunder_append [of key k'] by simp
      then show ?thesis by simp
    qed simp
  qed
next
  assume "out1 = AList.update key (obj_getattr ob key) out"
  then have "(K, v) = (key, obj_getattr ob key) \<or> (K, v) \<in> set out"
    using assms(2) set_update_subset [of key "obj_getattr ob key" out] by blast
  then show ?thesis by auto
qed

lemma fold_sgp_step_Cons:
  assumes "fold (sgp_step n h ob deep) (key # ks) (Some out) = Some res"
  obtains out1 where "sgp_step n h ob deep key (Some out) = Some out1"
    and "fold (sgp_step n h ob deep) ks (Some out1) = Some res"
proof (cases "sgp_step n h ob deep key (Some out)")
  case None
  then show ?thesis using assms by (simp add: fold_sgp_step_None)
next
  case (Some out1)
  then show ?thesis using assms that by simp
qed

lemma fold_sgp_step_append:
  assumes "fold (sgp_step n h ob deep) (xs @ ys) (Some out) = Some res"
  obtains out1 where "fold (sgp_step n h ob deep) xs (Some out) = Some out1"
    and "fold (sgp_step n h ob deep) ys (Some out1) = Some res"
proof (cases "fold (sgp_step n h ob deep) xs (Some out)")
  case None
  then show ?thesis using assms by (simp add: fold_sgp_step_None)
next
  case (Some out1)
  then show ?thesis using assms that by simp
qed

lemma fold_sgp_step_distinct:
  "fold (sgp_step n h ob deep) ks (Some out) = Some res \<Longrightarrow> distinct (map fst out)
     \<Longrightarrow> distinct (map fst res)"
proof (induction ks arbitrary: out)
  case Nil
  then show ?case by simp
next
  case (Cons key ks)
  from fold_sgp_step_Cons [OF Cons.prems(1)] obtain out1
    where 1: "sgp_step n h ob deep key (Some out) = Some out1"
      and 2: "fold (sgp_step n h ob deep) ks (Some out1) = Some res" by blast
  show ?case by (rule Cons.IH [OF 2 sgp_step_distinct [OF 1 Cons.prems(2)]])
qed

lemma fold_sgp_step_keys:
  "fold (sgp_step n h ob deep) ks (Some out) = Some res \<Longrightarrow> (K, v) \<in> set res
     \<Longrightarrow> K \<in> set ks \<or> has_dunder K \<or> (K, v) \<in> set out"
proof (induction ks arbitrary: out)
  case Nil
  then show ?case by simp
next
  case (Cons key ks)
  from fold_sgp_step_Cons [OF Cons.prems(1)] obtain out1
    where 1: "sgp_step n h ob deep key (Some out) = Some out1"
      and 2: "fold (sgp_step n h ob deep) ks (Some out1) = Some res" by blast
  from Cons.IH [OF 2 Cons.prems(2)]
  have "K \<in> set ks \<or> has_dunder K \<or> (K, v) \<in> set out1" .
  moreover have "K = key \<or> has_dunder K \<or> (K, v) \<in> set out" if "(K, v) \<in> set out1"
    by (rule sgp_step_keys [OF 1 that])
  ultimately show ?case by auto
qed

lemma fold_sgp_step_later:
  assumes "fold (sgp_step n h ob deep) ks (Some out) = Some res"
    and "\<forall>k2 \<in> set ks. (\<forall>sub. K \<noteq> (k2 @ ''__'') @ sub) \<and> (k2 = K \<longrightarrow> v = obj_getattr ob K)"
    and "map_of out K = Some v"
  shows "map_of res K = Some v"
  using assms
proof (induction ks arbitrary: out)
  case Nil
  then show ?case by simp
next
  case (Cons k2 ks)
  from fold_sgp_step_Cons [OF Cons.prems(1)] obtain out1
    where 1: "sgp_step n h ob deep k2 (Some out) = Some out1"
      and 2: "fold (sgp_step n h ob deep) ks (Some out1) = Some res" by blast
  have "map_of out1 K = Some v"
  proof (cases "K = k2")
    case True
    then show ?thesis using Cons.prems(2) sgp_step_map_of_key [OF 1] by simp
  next
    case False
    have "map_of out1 K = map_of out K"
      by (rule sgp_step_map_of_other [OF 1 False]) (use Cons.prems(2) in simp)
    then show ?thesis using Cons.prems(3) by simp
  qed
  from Cons.IH [OF 2 _ this] Cons.prems(2) show ?case by simp
qed

lemma store_get_params_obj:
  assumes "store_get_params n h a deep = Some valid"
  obtains m ob where "n = Suc m" and "h a = Some ob"
    and "fold (sgp_step m h ob deep) (sort (obj_names ob)) (Some []) = Some valid"
proof (cases n)
  case 0
  then show ?thesis using assms by simp
next
  case (Suc m)
  then show ?thesis using assms that
    by (cases "h a") (simp_all add: store_get_params_Suc)
qed

lemma store_get_params_distinct:
  assumes "store_get_params n h a deep = Some valid"
  shows "distinct (map fst valid)"
proof -
  from store_get_params_obj [OF assms] obtain m ob
    where "fold (sgp_step m h ob deep) (sort (obj_names ob)) (Some []) = Some valid" by blast
  from fold_sgp_step_distinct [OF this] show ?thesis by simp
qed

lemma store_get_params_key_cases:
  assumes "store_get_params n h a deep = Some valid" and "h a = Some ob" and "(K, v) \<in> set valid"
  shows "K \<in> set (obj_names ob) \<or> has_dunder K"
proof -
  from store_get_params_obj [OF assms(1)] obtain m ob'
    where "h a = Some ob'"
      and "fold (sgp_step m h ob' deep) (sort (obj_names ob')) (Some []) = Some valid" by blast
  then have "fold (sgp_step m h ob deep) (sort (obj_names ob)) (Some []) = Some valid"
    using assms(2) by simp
  from fold_sgp_step_keys [OF this assms(3)] show ?thesis by simp
qed

lemma store_get_params_top_level:
  assumes "store_get_params n h a deep = Some valid" and "h a = Some ob"
    and "key \<in> set (obj_names ob)"
  shows "map_of valid key = Some (obj_getattr ob key)"
proof -
  from store_get_params_obj [OF assms(1)] obtain m ob'
    where "h a = Some ob'"
      and "fold (sgp_step m h ob' deep) (sort (obj_names ob')) (Some []) = Some valid" by blast
  then have f: "fold (sgp_step m h ob deep) (sort (obj_names ob)) (Some []) = Some valid"
    using assms(2) by simp
  from assms(3) have "key \<in> set (sort (obj_names ob))" by simp
  from split_list [OF this]
  obtain xs ys where s: "sort (obj_names ob) = xs @ key # ys" by blast
  have "sorted (xs @ key # ys)" using sorted_sort [of "obj_names ob"] by (simp only: s)
  then have later: "\<forall>k2 \<in> set ys. key \<le> k2" by (simp add: sorted_append)
  from f have "fold (sgp_step m h ob deep) (xs @ key # ys) (Some []) = Some valid"
    by (simp only: s)
  from fold_sgp_step_append [OF this] obtain o1
    where "fold (sgp_step m h ob deep) (key # ys) (Some o1) = Some valid" by blast
  from fold_sgp_step_Cons [OF this] obtain o2
    where 1: "sgp_step m h ob deep key (Some o1) = Some o2"
      and 2: "fold (sgp_step m h ob deep) ys (Some o2) = Some valid" by blast
  show ?thesis
  proof (rule fold_sgp_step_later [OF 2])
    show "map_of o2 key = Some (obj_getattr ob key)" by (rule sgp_step_map_of_key [OF 1])
  next
    show "\<forall>k2 \<in> set ys. (\<forall>sub. key \<noteq> (k2 @ ''__'') @ sub)
              \<and> (k2 = key \<longrightarrow> obj_getattr ob key = obj_getattr ob key)"
    proof
      fix k2 assume k2: "k2 \<in> set ys"
      have "key \<noteq> (k2 @ ''__'') @ sub" for sub
      proof
        assume "key = (k2 @ ''__'') @ sub"
        then have "key = k2 @ CHR ''_'' # (CHR ''_'' # sub)" by simp
        then have "k2 < key" using prefix_less [of k2 "CHR ''_''" "CHR ''_'' # sub"] by simp
        then show False using later k2 by auto
      qed
      then show "(\<forall>sub. key \<noteq> (k2 @ ''__'') @ sub)
              \<and> (k2 = key \<longrightarrow> obj_getattr ob key = obj_getattr ob key)" by simp
    qed
  qed
qed

text \<open>
  The two loops of \<^verbatim>\<open>set_params\<close>, called with entries of \<^verbatim>\<open>get_params()\<close> on an
  estimator that splits back: every assignment writes the value that was read, so the
  store reads the same after the call.
\<close>

lemma nested_agree_add:
  assumes "nested_agree n h ob nested" and "key \<in> set (obj_names ob)"
    and "obj_getattr ob key = SRef b" and "store_get_params n h b True = Some items"
    and "map_of items sub = Some v"
  shows "nested_agree n h ob (store_nested_add key sub v nested)"
  unfolding nested_agree_def
proof (intro ballI, clarify)
  fix key' sp
  assume m: "(key', sp) \<in> set (store_nested_add key sub v nested)"
  define d where "d = (case map_of nested key of None \<Rightarrow> [] | Some d \<Rightarrow> d)"
  have d: "\<forall>(k, v) \<in> set d. map_of items k = Some v"
  proof (cases "map_of nested key")
    case None
    then show ?thesis by (simp add: d_def)
  next
    case (Some d')
    then have "(key, d') \<in> set nested" by (rule map_of_SomeD)
    then have "\<exists>b' items'. obj_getattr ob key = SRef b'
              \<and> store_get_params n h b' True = Some items'
              \<and> (\<forall>(k, v) \<in> set d'. map_of items' k = Some v)"
      using assms(1) unfolding nested_agree_def by fast
    then show ?thesis using assms(3,4) Some by (auto simp: d_def)
  qed
  have "(key', sp) = (key, AList.update sub v d) \<or> (key', sp) \<in> set nested"
    using m set_update_subset [of key "AList.update sub v d" nested]
    unfolding store_nested_add_def d_def by blast
  then show "key' \<in> set (obj_names ob)
        \<and> (\<exists>b deep_items. obj_getattr ob key' = SRef b
              \<and> store_get_params n h b True = Some deep_items
              \<and> (\<forall>(k, v) \<in> set sp. map_of deep_items k = Some v))"
  proof
    assume e: "(key', sp) = (key, AList.update sub v d)"
    have "\<forall>(k, v') \<in> set (AList.update sub v d). map_of items k = Some v'"
      using d assms(5) set_update_subset [of sub v d] by fast
    then show ?thesis using e assms(2,3,4) by simp
  next
    assume "(key', sp) \<in> set nested"
    then show ?thesis using assms(1) unfolding nested_agree_def by fast
  qed
qed

lemma splits_to_childD:
  assumes "splits_to_child n h ob K v" and "partition_dunder K = (key, delim, sub)"
  obtains b items where "key \<in> set (obj_names ob)" "obj_getattr ob key = SRef b"
    "store_get_params n h b True = Some items" "map_of items sub = Some v"
  using assms by (auto simp: splits_to_child_def split: sval.splits option.splits)

lemma store_assign_params_agrees:
  assumes ha: "h a = Some ob"
    and V1: "\<And>key. key \<in> set (obj_names ob) \<Longrightarrow> map_of valid key = Some (obj_getattr ob key)"
    and V2: "\<And>K v. map_of valid K = Some v \<Longrightarrow> \<not> has_dunder K \<Longrightarrow> K \<in> set (obj_names ob)"
    and V3: "\<And>K v. map_of valid K = Some v \<Longrightarrow> has_dunder K \<Longrightarrow> splits_to_child n h ob K v"
  shows "same_reads h hc \<Longrightarrow> (\<forall>(k, v) \<in> set ps. map_of valid k = Some v)
           \<Longrightarrow> nested_agree n h ob nested
           \<Longrightarrow> \<exists>h' nested'. store_assign_params valid ps a hc nested = (None, h', nested')
                  \<and> same_reads h h' \<and> nested_agree n h ob nested'"
proof (induction ps arbitrary: hc nested)
  case Nil
  then show ?case by simp
next
  case (Cons kv rest)
  obtain k v where kv: "kv = (k, v)" by (cases kv)
  obtain key delim sub where p: "partition_dunder k = (key, delim, sub)"
    by (cases "partition_dunder k") auto
  have mv: "map_of valid k = Some v" using Cons.prems(2) by (simp add: kv)
  have rest: "\<forall>(k, v) \<in> set rest. map_of valid k = Some v" using Cons.prems(2) by simp
  show ?case
  proof (cases "has_dunder k")
    case True
    then have dl: "delim \<noteq> []" using partition_dunder_names [OF p] by simp
    from splits_to_childD [OF V3 [OF mv True] p] obtain b items
      where c: "key \<in> set (obj_names ob)" "obj_getattr ob key = SRef b"
        "store_get_params n h b True = Some items" "map_of items sub = Some v" by blast
    have vk: "map_of valid key \<noteq> None" using V1 [OF c(1)] by simp
    have na: "nested_agree n h ob (store_nested_add key sub v nested)"
      by (rule nested_agree_add [OF Cons.prems(3) c])
    from Cons.IH [OF Cons.prems(1) rest na] show ?thesis using p dl vk by (simp add: kv)
  next
    case False
    then have dl: "delim = []" and kk: "key = k" using partition_dunder_names [OF p] by simp_all
    have kn: "k \<in> set (obj_names ob)" by (rule V2 [OF mv False])
    have v: "v = obj_getattr ob k" using V1 [OF kn] mv by simp
    have vk: "map_of valid key \<noteq> None" using mv kk by simp
    have sr: "same_reads h (store_setattr hc a k v)"
      unfolding v by (rule same_reads_setattr [OF Cons.prems(1) ha])
    from Cons.IH [OF sr rest Cons.prems(3)] show ?thesis using p dl vk kk by (simp add: kv)
  qed
qed

lemma store_set_nested_agrees:
  assumes V1: "\<And>key. key \<in> set (obj_names ob) \<Longrightarrow> map_of valid key = Some (obj_getattr ob key)"
    and IH: "\<And>b ps hc items. same_reads h hc \<Longrightarrow> store_get_params n h b True = Some items
               \<Longrightarrow> splits_back n h b \<Longrightarrow> (\<forall>(k, v) \<in> set ps. map_of items k = Some v)
               \<Longrightarrow> \<exists>h'. store_set_params n hc b ps = (None, h') \<and> same_reads h h'"
    and SB: "\<And>key b. key \<in> set (obj_names ob) \<Longrightarrow> obj_getattr ob key = SRef b
               \<Longrightarrow> splits_back n h b"
  shows "same_reads h hc \<Longrightarrow> nested_agree n h ob nested
           \<Longrightarrow> \<exists>h'. store_set_nested (\<lambda>b sub_params h. store_set_params n h b sub_params)
                        valid nested hc = (None, h')
                  \<and> same_reads h h'"
proof (induction nested arbitrary: hc)
  case Nil
  then show ?case by simp
next
  case (Cons e rest)
  obtain key sp where e: "e = (key, sp)" by (cases e)
  have "key \<in> set (obj_names ob)
        \<and> (\<exists>b deep_items. obj_getattr ob key = SRef b
              \<and> store_get_params n h b True = Some deep_items
              \<and> (\<forall>(k, v) \<in> set sp. map_of deep_items k = Some v))"
    using Cons.prems(2) unfolding nested_agree_def by (simp add: e)
  then obtain b items where c: "key \<in> set (obj_names ob)" "obj_getattr ob key = SRef b"
      "store_get_params n h b True = Some items" "\<forall>(k, v) \<in> set sp. map_of items k = Some v"
    by (elim conjE exE)
  have vk: "map_of valid key = Some (SRef b)" using V1 [OF c(1)] c(2) by simp
  from IH [OF Cons.prems(1) c(3) SB [OF c(1,2)] c(4)]
  obtain h1 where 1: "store_set_params n hc b sp = (None, h1)" and s1: "same_reads h h1"
    by (elim exE conjE)
  have r: "nested_agree n h ob rest" using Cons.prems(2) unfolding nested_agree_def by simp
  from Cons.IH [OF s1 r] show ?case by (simp add: e vk 1)
qed

lemma store_set_params_agrees:
  "same_reads h hc \<Longrightarrow> store_get_params n h a True = Some valid \<Longrightarrow> splits_back n h a
     \<Longrightarrow> (\<forall>(k, v) \<in> set ps. map_of valid k = Some v)
     \<Longrightarrow> \<exists>h'. store_set_params n hc a ps = (None, h') \<and> same_reads h h'"
proof (induction n arbitrary: a hc valid ps)
  case 0
  then show ?case by simp
next
  case (Suc n)
  show ?case
  proof (cases "ps = []")
    case True
    then show ?thesis using Suc.prems(1) by simp
  next
    case False
    from store_get_params_obj [OF Suc.prems(2)] obtain ob where ha: "h a = Some ob"
      by blast
    have gc: "store_get_params (Suc n) hc a True = Some valid"
      using store_get_params_same_reads [OF Suc.prems(1)] Suc.prems(2) by simp
    have V1: "map_of valid key = Some (obj_getattr ob key)" if "key \<in> set (obj_names ob)" for key
      by (rule store_get_params_top_level [OF Suc.prems(2) ha that])
    have V2: "K \<in> set (obj_names ob)" if "map_of valid K = Some v" "\<not> has_dunder K" for K v
      using store_get_params_key_cases [OF Suc.prems(2) ha map_of_SomeD [OF that(1)]] that(2)
      by simp
    have sb: "(\<forall>(k, value) \<in> set valid. has_dunder k \<longrightarrow> splits_to_child n h ob k value)
              \<and> (\<forall>key \<in> set (obj_names ob).
                      case obj_getattr ob key of SRef b \<Rightarrow> splits_back n h b | _ \<Rightarrow> True)"
      using Suc.prems(3) by (simp add: ha Suc.prems(2))
    have V3: "splits_to_child n h ob K v" if "map_of valid K = Some v" "has_dunder K" for K v
      using sb map_of_SomeD [OF that(1)] that(2) by fast
    have SB: "splits_back n h b" if "key \<in> set (obj_names ob)" "obj_getattr ob key = SRef b"
      for key b
    proof -
      from sb that(1) have "case obj_getattr ob key of SRef b \<Rightarrow> splits_back n h b | _ \<Rightarrow> True"
        by (elim conjE) (rule bspec)
      then show ?thesis by (simp add: that(2))
    qed
    have na: "nested_agree n h ob []" by (simp add: nested_agree_def)
    have "\<exists>h' nested'. store_assign_params valid ps a hc [] = (None, h', nested')
                  \<and> same_reads h h' \<and> nested_agree n h ob nested'"
    proof (rule store_assign_params_agrees [where ob = ob and n = n and h = h and valid = valid])
      show "h a = Some ob" by (rule ha)
      show "map_of valid key = Some (obj_getattr ob key)" if "key \<in> set (obj_names ob)" for key
        by (rule V1 [OF that])
      show "K \<in> set (obj_names ob)" if "map_of valid K = Some v" "\<not> has_dunder K" for K v
        by (rule V2 [OF that])
      show "splits_to_child n h ob K v" if "map_of valid K = Some v" "has_dunder K" for K v
        by (rule V3 [OF that])
      show "same_reads h hc" by (rule Suc.prems(1))
      show "\<forall>(k, v) \<in> set ps. map_of valid k = Some v" by (rule Suc.prems(4))
      show "nested_agree n h ob []" by (rule na)
    qed
    then obtain h1 nested' where 1: "store_assign_params valid ps a hc [] = (None, h1, nested')"
      and s1: "same_reads h h1" and n1: "nested_agree n h ob nested'"
      by (elim exE conjE)
    have "\<exists>h'. store_set_nested (\<lambda>b sub_params h. store_set_params n h b sub_params)
                        valid nested' h1 = (None, h')
                  \<and> same_reads h h'"
    proof (rule store_set_nested_agrees [where ob = ob and n = n and h = h and valid = valid])
      show "map_of valid key = Some (obj_getattr ob key)" if "key \<in> set (obj_names ob)" for key
        by (rule V1 [OF that])
      show "\<exists>h'. store_set_params n hc b ps = (None, h') \<and> same_reads h h'"
        if "same_reads h hc" "store_get_params n h b True = Some items" "splits_back n h b"
          "\<forall>(k, v) \<in> set ps. map_of items k = Some v" for b ps hc items
        by (rule Suc.IH [OF that])
      show "splits_back n h b" if "key \<in> set (obj_names ob)" "obj_getattr ob key = SRef b"
        for key b
        by (rule SB [OF that])
      show "same_reads h h1" by (rule s1)
      show "nested_agree n h ob nested'" by (rule n1)
    qed
    then obtain h' where 2: "store_set_nested (\<lambda>b sub_params h. store_set_params n h b sub_params)
                        valid nested' h1 = (None, h')"
      and s2: "same_reads h h'"
      by (elim exE conjE)
    show ?thesis using False gc 1 2 s2 by simp
  qed
qed

text \<open>
  Estimators whose names follow the convention split back.
\<close>

lemma sgp_step_splits:
  assumes "sgp_step n h ob True key (Some out) = Some out1"
    and "\<not> has_dunder key"
    and "\<And>b. obj_getattr ob key = SRef b \<Longrightarrow> plain_name key"
    and "key \<in> set (obj_names ob)"
    and "\<forall>(k, v) \<in> set out. has_dunder k \<longrightarrow> splits_to_child n h ob k v"
  shows "\<forall>(k, v) \<in> set out1. has_dunder k \<longrightarrow> splits_to_child n h ob k v"
  using sgp_step_cases [OF assms(1)]
proof (elim disjE exE conjE)
  fix b items
  assume r: "obj_getattr ob key = SRef b" and g: "store_get_params n h b True = Some items"
    and o: "out1 = AList.update key (SRef b)
                       (fold (\<lambda>(k, v). AList.update ((key @ ''__'') @ k) v) items out)"
  have pl: "plain_name key" by (rule assms(3) [OF r])
  show ?thesis
  proof (intro ballI, clarify)
    fix K v assume m: "(K, v) \<in> set out1" and d: "has_dunder K"
    have "(K, v) = (key, SRef b)
        \<or> (K, v) \<in> set (fold (\<lambda>(k, v). AList.update ((key @ ''__'') @ k) v) items out)"
      using m set_update_subset [of key "SRef b"] unfolding o by blast
    then have "(K, v) \<in> set (fold (\<lambda>(k, v). AList.update ((key @ ''__'') @ k) v) items out)"
      using d assms(2) by auto
    from fold_update_values [OF this]
    have "(K, v) \<in> set out \<or> (\<exists>k'. (k', v) \<in> set items \<and> K = (key @ ''__'') @ k')" .
    then show "splits_to_child n h ob K v"
    proof
      assume "(K, v) \<in> set out"
      then show ?thesis using assms(5) d by fast
    next
      assume "\<exists>k'. (k', v) \<in> set items \<and> K = (key @ ''__'') @ k'"
      then obtain k' where k': "(k', v) \<in> set items" and K: "K = (key @ ''__'') @ k'"
        by (elim exE conjE)
      have p: "partition_dunder K = (key, ''__'', k')"
        using plain_name_partition [OF pl, of k'] by (simp add: K)
      have mi: "map_of items k' = Some v"
        using store_get_params_distinct [OF g] k' by (rule map_of_is_SomeI)
      show ?thesis by (simp add: splits_to_child_def p assms(4) r g mi)
    qed
  qed
next
  assume o: "out1 = AList.update key (obj_getattr ob key) out"
  show ?thesis
  proof (intro ballI, clarify)
    fix K v assume m: "(K, v) \<in> set out1" and d: "has_dunder K"
    have "(K, v) = (key, obj_getattr ob key) \<or> (K, v) \<in> set out"
      using m set_update_subset [of key "obj_getattr ob key" out] unfolding o by blast
    then have "(K, v) \<in> set out" using d assms(2) by auto
    then show "splits_to_child n h ob K v" using assms(5) d by fast
  qed
qed

lemma fold_sgp_step_splits:
  assumes "\<And>key. key \<in> set ks \<Longrightarrow> \<not> has_dunder key \<and> key \<in> set (obj_names ob)
              \<and> (\<forall>b. obj_getattr ob key = SRef b \<longrightarrow> plain_name key)"
  shows "fold (sgp_step n h ob True) ks (Some out) = Some res
    \<Longrightarrow> \<forall>(k, v) \<in> set out. has_dunder k \<longrightarrow> splits_to_child n h ob k v
    \<Longrightarrow> \<forall>(k, v) \<in> set res. has_dunder k \<longrightarrow> splits_to_child n h ob k v"
  using assms
proof (induction ks arbitrary: out)
  case Nil
  then show ?case by simp
next
  case (Cons key ks)
  from fold_sgp_step_Cons [OF Cons.prems(1)] obtain out1
    where 1: "sgp_step n h ob True key (Some out) = Some out1"
      and 2: "fold (sgp_step n h ob True) ks (Some out1) = Some res" by blast
  have k: "\<not> has_dunder key \<and> key \<in> set (obj_names ob)
              \<and> (\<forall>b. obj_getattr ob key = SRef b \<longrightarrow> plain_name key)"
    by (rule Cons.prems(3)) simp
  have "\<forall>(k, v) \<in> set out1. has_dunder k \<longrightarrow> splits_to_child n h ob k v"
    by (rule sgp_step_splits [OF 1 _ _ _ Cons.prems(2)]) (use k in simp_all)
  from Cons.IH [OF 2 this] Cons.prems(3) show ?case by simp
qed

lemma plain_names_splits_back: "plain_names n h a \<Longrightarrow> splits_back n h a"
proof (induction n arbitrary: a)
  case 0
  show ?case by simp
next
  case (Suc n)
  show ?case
  proof (cases "h a")
    case None
    then show ?thesis by simp
  next
    case (Some ob)
    have pn: "\<not> has_dunder key
             \<and> (case obj_getattr ob key of
                  SRef b \<Rightarrow> plain_name key \<and> plain_names n h b
                | _ \<Rightarrow> True)" if "key \<in> set (obj_names ob)" for key
      using Suc.prems that by (simp add: Some)
    have rec: "case obj_getattr ob key of SRef b \<Rightarrow> splits_back n h b | _ \<Rightarrow> True"
      if "key \<in> set (obj_names ob)" for key
      using pn [OF that] Suc.IH by (cases "obj_getattr ob key") simp_all
    show ?thesis
    proof (cases "store_get_params (Suc n) h a True")
      case None
      then show ?thesis by (simp add: Some)
    next
      case (Some valid)
      then have f: "fold (sgp_step n h ob True) (sort (obj_names ob)) (Some []) = Some valid"
        using \<open>h a = Some ob\<close> by (simp add: store_get_params_Suc)
      have "\<forall>(k, v) \<in> set valid. has_dunder k \<longrightarrow> splits_to_child n h ob k v"
      proof (rule fold_sgp_step_splits [OF _ f])
        show "\<forall>(k, v) \<in> set []. has_dunder k \<longrightarrow> splits_to_child n h ob k v" by simp
      next
        fix key assume "key \<in> set (sort (obj_names ob))"
        then have "key \<in> set (obj_names ob)" by simp
        from pn [OF this] this
        show "\<not> has_dunder key \<and> key \<in> set (obj_names ob)
              \<and> (\<forall>b. obj_getattr ob key = SRef b \<longrightarrow> plain_name key)"
          by auto
      qed
      then show ?thesis using rec by (simp add: Some \<open>h a = Some ob\<close>)
    qed
  qed
qed

text \<open>
  C9, for the detectors that split back. Let \<^verbatim>\<open>get_params()\<close> return the mapping
  \<open>valid_params\<close> on a detector in which, at every level of nesting, each key of
  \<^verbatim>\<open>get_params()\<close> with a delimiter splits at its first delimiter into a declared
  parameter holding an estimator and a key of that estimator's \<^verbatim>\<open>get_params()\<close> with
  the same value (\<open>splits_back\<close>; it holds whenever no declared name contains the
  delimiter and no parameter holding an estimator has a name ending in \<^verbatim>\<open>'_'\<close>,
  lemma \<open>plain_names_splits_back\<close>). Then \<^verbatim>\<open>set_params(**valid_params)\<close> returns
  without an error, every attribute read of the detector and of every other object gives
  the value it gave before, and \<^verbatim>\<open>get_params\<close> returns the same mapping before and
  after the round trip, for either value of \<open>deep\<close>. A declared parameter need not be
  stored as an attribute, and a parameter that holds no estimator may have any name
  without the delimiter.
\<close>

theorem set_params_get_params_roundtrip:
  assumes "store_get_params n h a True = Some valid_params" and "splits_back n h a"
  shows "fst (store_set_params n h a valid_params) = None
         \<and> same_reads h (snd (store_set_params n h a valid_params))
         \<and> store_get_params n (snd (store_set_params n h a valid_params)) a deep
             = store_get_params n h a deep"
proof -
  have "\<forall>(k, v) \<in> set valid_params. map_of valid_params k = Some v"
    using store_get_params_distinct [OF assms(1)] by (auto intro: map_of_is_SomeI)
  from store_set_params_agrees [OF same_reads_refl assms this]
  obtain h' where 1: "store_set_params n h a valid_params = (None, h')" and 2: "same_reads h h'"
    by (elim exE conjE)
  show ?thesis using 1 2 store_get_params_same_reads [OF 2] by simp
qed

text \<open>
  The wrapper of \<open>wrapped_store\<close> splits back, and its round trip leaves it as it was.
\<close>

theorem set_params_get_params_roundtrip_witness:
  "store_get_params 2 wrapped_store 0 True
     = Some [(''alpha_'', SNum 1), (''base__contamination'', SNum (1/10)),
             (''base'', SRef 1), (''beta'', SNone)]
   \<and> splits_back 2 wrapped_store 0
   \<and> fst (store_set_params 2 wrapped_store 0
            [(''alpha_'', SNum 1), (''base__contamination'', SNum (1/10)),
             (''base'', SRef 1), (''beta'', SNone)]) = None
   \<and> same_reads wrapped_store
        (snd (store_set_params 2 wrapped_store 0
            [(''alpha_'', SNum 1), (''base__contamination'', SNum (1/10)),
             (''base'', SRef 1), (''beta'', SNone)]))
   \<and> store_get_params 2
        (snd (store_set_params 2 wrapped_store 0
            [(''alpha_'', SNum 1), (''base__contamination'', SNum (1/10)),
             (''base'', SRef 1), (''beta'', SNone)])) 0 True
       = store_get_params 2 wrapped_store 0 True"
proof -
  have g: "store_get_params 2 wrapped_store 0 True
     = Some [(''alpha_'', SNum 1), (''base__contamination'', SNum (1/10)),
             (''base'', SRef 1), (''beta'', SNone)]"
    by code_simp
  have s: "splits_back 2 wrapped_store 0"
    by code_simp
  from set_params_get_params_roundtrip [OF g s, of True] show ?thesis using g s
    by (elim conjE) (intro conjI; assumption)
qed

text \<open>
  The claim C9 for every detector fails where a flattened key does not split back. In
  \<open>shared_store\<close> the parameters \<^verbatim>\<open>a\<close> and \<^verbatim>\<open>a_\<close> both flatten to the key
  \<^verbatim>\<open>a___x\<close>, which keeps the value 2 of \<^verbatim>\<open>a_.x\<close>; \<^verbatim>\<open>set_params\<close> splits that key
  at its first delimiter and assigns 2 to the parameter \<^verbatim>\<open>_x\<close> of the estimator under
  \<^verbatim>\<open>a\<close>. That estimator is also the value of \<^verbatim>\<open>Z\<close>, so the entry \<^verbatim>\<open>Z___x\<close> of
  \<^verbatim>\<open>get_params()\<close> is 1 before the round trip and 2 after it, although the call
  returns without an error.
\<close>

theorem set_params_roundtrip_shared_estimator:
  "store_get_params 2 shared_store 0 True
     = Some [(''Z___x'', SNum 1), (''Z'', SRef 1), (''a___x'', SNum 2), (''a'', SRef 1),
             (''a_'', SRef 2)]
   \<and> fst (store_set_params 2 shared_store 0
            [(''Z___x'', SNum 1), (''Z'', SRef 1), (''a___x'', SNum 2), (''a'', SRef 1),
             (''a_'', SRef 2)]) = None
   \<and> store_get_params 2
        (snd (store_set_params 2 shared_store 0
            [(''Z___x'', SNum 1), (''Z'', SRef 1), (''a___x'', SNum 2), (''a'', SRef 1),
             (''a_'', SRef 2)])) 0 True
     = Some [(''Z___x'', SNum 2), (''Z'', SRef 1), (''a___x'', SNum 2), (''a'', SRef 1),
             (''a_'', SRef 2)]"
  by code_simp


end
